theory Spec2Isabelle
  imports Main
begin

section \<open>Strings and characters of the source\<close>

text \<open>
  The program is Python. A Python \<open>str\<close> is a sequence of code points; it is modelled as
  \<^typ>\<open>string\<close>, whose characters carry the code points U+0000 to U+00FF. On that range the
  character classes below are the ones of Python 3: \<open>str.isspace\<close>, \<open>str.strip\<close> and the
  regular expression class \<open>\s\<close> agree on one set of twelve characters, \<open>\w\<close> is the
  alphanumeric characters and the underscore, \<open>str.lower\<close> maps one character to one
  character, and a letter of \<open>with\<close> or \<open>as\<close> matches under \<open>re.IGNORECASE\<close> its two
  ASCII cases only. Strings with a code point beyond that range are not covered: there
  \<open>str.lower\<close> can lengthen a string, and a letter of a pattern matches further
  characters.
\<close>

datatype py_error = IndexError

type_synonym cte = "string \<times> string"

definition py_isspace :: "char \<Rightarrow> bool" where
  "py_isspace c =
     (c \<in> set [CHR 0x09, CHR 0x0A, CHR 0x0B, CHR 0x0C, CHR 0x0D, CHR 0x1C, CHR 0x1D,
                CHR 0x1E, CHR 0x1F, CHR 0x20, CHR 0x85, CHR 0xA0])"

definition ascii_upper :: "char \<Rightarrow> bool" where
  "ascii_upper c = (let n = (of_char c :: nat) in 65 \<le> n \<and> n \<le> 90)"

definition ascii_lower :: "char \<Rightarrow> bool" where
  "ascii_lower c = (let n = (of_char c :: nat) in 97 \<le> n \<and> n \<le> 122)"

definition ascii_digit :: "char \<Rightarrow> bool" where
  "ascii_digit c = (let n = (of_char c :: nat) in 48 \<le> n \<and> n \<le> 57)"

definition py_isword :: "char \<Rightarrow> bool" where
  \<comment> \<open>the class \<open>\w\<close> of a \<open>str\<close> pattern\<close>
  "py_isword c =
     (let n = (of_char c :: nat) in
        ascii_upper c \<or> ascii_lower c \<or> ascii_digit c \<or> n = 95 \<or>
        n \<in> set [170, 178, 179, 181, 185, 186, 188, 189, 190] \<or>
        (192 \<le> n \<and> n \<le> 214) \<or> (216 \<le> n \<and> n \<le> 246) \<or> 248 \<le> n)"

definition py_lower :: "char \<Rightarrow> char" where
  "py_lower c =
     (let n = (of_char c :: nat) in
        if ascii_upper c \<or> (192 \<le> n \<and> n \<le> 214) \<or> (216 \<le> n \<and> n \<le> 222)
        then char_of (n + 32) else c)"

definition ident_start :: "char \<Rightarrow> bool" where
  \<comment> \<open>\<open>[a-zA-Z_]\<close>\<close>
  "ident_start c = (ascii_lower c \<or> ascii_upper c \<or> c = CHR ''_'')"

definition ident_char :: "char \<Rightarrow> bool" where
  \<comment> \<open>\<open>[a-zA-Z0-9_]\<close>\<close>
  "ident_char c = (ascii_lower c \<or> ascii_upper c \<or> ascii_digit c \<or> c = CHR ''_'')"

definition ci_match :: "char \<Rightarrow> char \<Rightarrow> bool" where
  \<comment> \<open>a lower-case ASCII letter \<open>l\<close> of a pattern compiled with \<open>re.IGNORECASE\<close>\<close>
  "ci_match l c = (c = l \<or> (of_char c :: nat) + 32 = of_char l)"

definition py_strip :: "string \<Rightarrow> string" where
  \<comment> \<open>\<open>s.strip()\<close>\<close>
  "py_strip s = rev (dropWhile py_isspace (rev (dropWhile py_isspace s)))"

definition py_slice :: "string \<Rightarrow> int \<Rightarrow> int \<Rightarrow> string" where
  \<comment> \<open>\<open>s[i:j]\<close>: a negative bound counts from the end, both bounds are clipped\<close>
  "py_slice s i j =
     (let n = int (length s);
          a = (if i < 0 then max 0 (n + i) else min n i);
          b = (if j < 0 then max 0 (n + j) else min n j)
      in take (nat (b - a)) (drop (nat a) s))"

definition py_find :: "string \<Rightarrow> char \<Rightarrow> nat \<Rightarrow> int" where
  \<comment> \<open>\<open>s.find(c, start)\<close>: the lowest index from \<open>start\<close> on, or \<open>-1\<close>\<close>
  "py_find s c start =
     (case List.find (\<lambda>i. s ! i = c) [start..<length s] of
        None \<Rightarrow> - 1
      | Some i \<Rightarrow> int i)"

definition char_at :: "string \<Rightarrow> nat \<Rightarrow> py_error + char" where
  \<comment> \<open>\<open>s[pos]\<close> at a position that is not negative\<close>
  "char_at s pos = (if pos < length s then Inr (s ! pos) else Inl IndexError)"

fun py_join :: "string \<Rightarrow> string list \<Rightarrow> string" where
  "py_join sep [] = []"
| "py_join sep [x] = x"
| "py_join sep (x # y # ys) = x @ sep @ py_join sep (y # ys)"


section \<open>The regular expressions of \<open>parse_cte_sql\<close>\<close>

definition word_boundary :: "string \<Rightarrow> nat \<Rightarrow> bool" where
  \<comment> \<open>\<open>\b\<close> at position \<open>i\<close>: exactly one side is a word character\<close>
  "word_boundary s i =
     ((0 < i \<and> i - 1 < length s \<and> py_isword (s ! (i - 1))) \<noteq>
      (i < length s \<and> py_isword (s ! i)))"

definition with_at :: "string \<Rightarrow> nat \<Rightarrow> bool" where
  \<comment> \<open>\<open>\bwith\b\<close> under \<open>re.IGNORECASE\<close> matches from position \<open>i\<close>\<close>
  "with_at s i =
     (word_boundary s i \<and> i + 4 \<le> length s \<and>
      ci_match CHR ''w'' (s ! i) \<and> ci_match CHR ''i'' (s ! (i + 1)) \<and>
      ci_match CHR ''t'' (s ! (i + 2)) \<and> ci_match CHR ''h'' (s ! (i + 3)) \<and>
      word_boundary s (i + 4))"

definition search_with :: "string \<Rightarrow> nat option" where
  \<comment> \<open>\<open>re.search(r'\bwith\b', sql, re.IGNORECASE)\<close>: \<open>match.end()\<close> of the leftmost match\<close>
  "search_with s =
     (case List.find (with_at s) [0..<Suc (length s)] of
        None \<Rightarrow> None
      | Some i \<Rightarrow> Some (i + 4))"

fun match_name :: "string \<Rightarrow> string option" where
  \<comment> \<open>\<open>re.match(r'([a-zA-Z_][a-zA-Z0-9_]*)', t)\<close>: group 1, which is the whole match\<close>
  "match_name [] = None"
| "match_name (c # cs) = (if ident_start c then Some (c # takeWhile ident_char cs) else None)"

fun match_as_paren :: "string \<Rightarrow> bool" where
  \<comment> \<open>\<open>re.match(r'(?i)as\s*\(', t)\<close> finds a match\<close>
  "match_as_paren (a # s # rest) =
     (ci_match CHR ''a'' a \<and> ci_match CHR ''s'' s \<and>
      (case dropWhile py_isspace rest of [] \<Rightarrow> False | c # _ \<Rightarrow> c = CHR ''(''))"
| "match_as_paren _ = False"


section \<open>The loops of \<open>parse_cte_sql\<close>\<close>

definition sep_char :: "char \<Rightarrow> bool" where
  \<comment> \<open>\<open>c in " \n\t,"\<close>\<close>
  "sep_char c = (c \<in> set [CHR '' '', CHR ''\<newline>'', CHR 0x09, CHR '',''])"

function skip_sep :: "string \<Rightarrow> nat \<Rightarrow> py_error + nat" where
  \<comment> \<open>\<open>while pos < length and sql[pos] in " \n\t,": pos += 1\<close>\<close>
  "skip_sep sql pos =
     (if pos < length sql then
        (case char_at sql pos of
           Inl e \<Rightarrow> Inl e
         | Inr c \<Rightarrow>
             if sep_char c then skip_sep sql (pos + 1)
             else Inr pos)
      else Inr pos)"
  by pat_completeness auto
termination
  by (relation "measure (\<lambda>(sql, pos). length sql - pos)") auto

declare skip_sep.simps [simp del]

function skip_space :: "string \<Rightarrow> nat \<Rightarrow> py_error + nat" where
  \<comment> \<open>\<open>while pos < length and sql[pos].isspace(): pos += 1\<close>\<close>
  "skip_space sql pos =
     (if pos < length sql then
        (case char_at sql pos of
           Inl e \<Rightarrow> Inl e
         | Inr c \<Rightarrow> if py_isspace c then skip_space sql (pos + 1) else Inr pos)
      else Inr pos)"
  by pat_completeness auto
termination
  by (relation "measure (\<lambda>(sql, pos). length sql - pos)") auto

declare skip_space.simps [simp del]

function match_brackets :: "string \<Rightarrow> nat \<Rightarrow> nat \<Rightarrow> py_error + nat" where
  \<comment> \<open>the bracket loop, from \<open>pos\<close> with \<open>bracket_count\<close>; the count never falls below 0\<close>
  "match_brackets sql pos bracket_count =
     (if pos < length sql \<and> bracket_count > 0 then
        (case char_at sql pos of
           Inl e \<Rightarrow> Inl e
         | Inr c \<Rightarrow>
             if c = CHR ''('' then match_brackets sql (pos + 1) (bracket_count + 1)
             else if c = CHR '')'' then match_brackets sql (pos + 1) (bracket_count - 1)
             else match_brackets sql (pos + 1) bracket_count)
      else Inr pos)"
  by pat_completeness auto
termination
  by (relation "measure (\<lambda>(sql, pos, n). length sql - pos)") auto

declare match_brackets.simps [simp del]


text \<open>
  The main loop. \<open>sql.lower().find("(", pos)\<close> is \<open>-1\<close> when there is no parenthesis, so
  \<open>start\<close> is \<open>find + 1\<close>, never negative, and the loop goes on from \<open>start\<close>.
\<close>

function parse_loop :: "string \<Rightarrow> nat \<Rightarrow> cte list \<Rightarrow> py_error + cte list" where
  \<comment> \<open>\<open>while pos < length: ...\<close>, with \<open>ctes\<close> the list built so far\<close>
  "parse_loop sql pos ctes =
     (if pos < length sql then
        (case skip_sep sql pos of
           Inl e \<Rightarrow> Inl e
         | Inr pos1 \<Rightarrow>
             (case match_name (drop pos1 sql) of
                None \<Rightarrow> Inr ctes
              | Some cte_name \<Rightarrow>
                  (case skip_space sql (pos1 + length cte_name) of
                     Inl e \<Rightarrow> Inl e
                   | Inr pos2 \<Rightarrow>
                       if \<not> match_as_paren (drop pos2 sql) then Inr ctes
                       else
                         (let start = nat (py_find (map py_lower sql) CHR ''('' pos2 + 1) in
                          case match_brackets sql start 1 of
                            Inl e \<Rightarrow> Inl e
                          | Inr pos3 \<Rightarrow>
                              (let cte_sql = py_strip (py_slice sql (int start) (int pos3 - 1));
                                   ctes' = ctes @ [(cte_name, cte_sql)]
                               in case skip_space sql pos3 of
                                    Inl e \<Rightarrow> Inl e
                                  | Inr pos4 \<Rightarrow>
                                      if pos4 \<ge> length sql then Inr ctes'
                                      else
                                        (case char_at sql pos4 of
                                           Inl e \<Rightarrow> Inl e
                                         | Inr c \<Rightarrow>
                                             if c \<noteq> CHR '','' then Inr ctes'
                                             else parse_loop sql pos4 ctes'))))))
      else Inr ctes)"
  by pat_completeness auto

definition parse_cte_sql :: "string \<Rightarrow> py_error + cte list" where
  "parse_cte_sql sql0 =
     (let sql = py_strip sql0 in
      case search_with sql of
        None \<Rightarrow> Inr []
      | Some pos \<Rightarrow> parse_loop sql pos [])"



section \<open>\<open>build_executable_cte_sql\<close>\<close>

definition full_sql :: "cte list \<Rightarrow> string \<Rightarrow> string" where
  \<comment> \<open>the statement assembled in one iteration, from \<open>accumulated\<close> and \<open>name\<close>\<close>
  "full_sql accumulated name =
     (let with_parts = map (\<lambda>(n, s). n @ '' AS (\<newline>'' @ s @ ''\<newline>)'') accumulated
      in ''WITH\<newline>'' @ py_join '',\<newline>'' with_parts @ ''\<newline>SELECT * FROM '' @ name)"

fun build_loop :: "cte list \<Rightarrow> (string \<rightharpoonup> string) \<times> cte list \<Rightarrow> (string \<rightharpoonup> string) \<times> cte list" where
  \<comment> \<open>\<open>for name, sql_body in ctes: ...\<close> on the state \<open>(result, accumulated)\<close>\<close>
  "build_loop [] st = st"
| "build_loop ((name, sql_body) # rest) (result, accumulated) =
     (let accumulated' = accumulated @ [(name, sql_body)]
      in build_loop rest (result(name \<mapsto> full_sql accumulated' name), accumulated'))"

definition build_executable_cte_sql :: "cte list \<Rightarrow> (string \<rightharpoonup> string)" where
  "build_executable_cte_sql ctes = fst (build_loop ctes (Map.empty, []))"


section \<open>Auxiliary functions of the proofs\<close>

text \<open>The number of characters the bracket loop consumes on a suffix of the statement.\<close>

fun bracket_len :: "nat \<Rightarrow> string \<Rightarrow> nat" where
  "bracket_len n [] = 0"
| "bracket_len n (c # cs) =
     (if n = 0 then 0
      else if c = CHR ''('' then Suc (bracket_len (n + 1) cs)
      else if c = CHR '')'' then Suc (bracket_len (n - 1) cs)
      else Suc (bracket_len n cs))"



text \<open>
  One iteration of the main loop from \<open>pos\<close>, on positions computed from the suffixes of
  the statement: it stops without a capture, captures the last entry, or captures an
  entry and goes on from the position of the comma.
\<close>

datatype step = Stop | Last cte | More cte nat

definition loop_step :: "string \<Rightarrow> nat \<Rightarrow> step" where
  "loop_step sql pos =
     (let pos1 = pos + length (takeWhile sep_char (drop pos sql)) in
      case match_name (drop pos1 sql) of
        None \<Rightarrow> Stop
      | Some cte_name \<Rightarrow>
          (let p = pos1 + length cte_name;
               pos2 = p + length (takeWhile py_isspace (drop p sql))
           in if \<not> match_as_paren (drop pos2 sql) then Stop
              else
                (let start = pos2 + 3 + length (takeWhile py_isspace (drop (pos2 + 2) sql));
                     pos3 = start + bracket_len 1 (drop start sql);
                     c = (cte_name, py_strip (take (pos3 - 1 - start) (drop start sql)));
                     pos4 = pos3 + length (takeWhile py_isspace (drop pos3 sql))
                 in if pos4 < length sql \<and> sql ! pos4 = CHR '','' then More c pos4 else Last c)))"


section \<open>Notions of the specification\<close>

text \<open>
  A whole-word occurrence of \<open>with\<close>, whatever the case of its letters, at position \<open>i\<close>
  of a statement: the four letters, no word character before them and none after them.
\<close>

definition whole_word_with_at :: "string \<Rightarrow> nat \<Rightarrow> bool" where
  "whole_word_with_at s i =
     (i + 4 \<le> length s \<and> map py_lower (take 4 (drop i s)) = ''with'' \<and>
      (i = 0 \<or> \<not> py_isword (s ! (i - 1))) \<and>
      (i + 4 = length s \<or> \<not> py_isword (s ! (i + 4))))"

definition has_whole_word_with :: "string \<Rightarrow> bool" where
  "has_whole_word_with s = (\<exists>i \<in> set [0..<length s]. whole_word_with_at s i)"


text \<open>
  The statement of the specification for a sequence of pairs that is not empty: the
  prefix, the rendering of every pair but the last followed by a comma and a newline,
  the rendering of the last pair, and the selection from the last name. A text
  contains another when the other starts at one of its positions.
\<close>

definition spec_rendering :: "cte \<Rightarrow> string" where
  "spec_rendering p = fst p @ '' AS (\<newline>'' @ snd p @ ''\<newline>)''"

definition spec_statement :: "cte list \<Rightarrow> string" where
  "spec_statement ps =
     ''WITH\<newline>'' @
     concat (map (\<lambda>p. spec_rendering p @ '',\<newline>'') (butlast ps)) @ spec_rendering (last ps) @
     ''\<newline>SELECT * FROM '' @ fst (last ps)"

fun contains_text :: "string \<Rightarrow> string \<Rightarrow> bool" where
  "contains_text [] t = (t = [])"
| "contains_text (c # cs) t = (take (length t) (c # cs) = t \<or> contains_text cs t)"


text \<open>
  A statement with balanced parentheses: as many \<open>(\<close> as \<open>)\<close>, and in every prefix at
  least as many \<open>(\<close> as \<open>)\<close>.
\<close>

definition balanced :: "string \<Rightarrow> bool" where
  "balanced s =
     (count_list s CHR ''('' = count_list s CHR '')'' \<and>
      (\<forall>n \<in> set [0..<Suc (length s)].
         count_list (take n s) CHR '')'' \<le> count_list (take n s) CHR ''(''))"


text \<open>The excess of \<open>(\<close> over \<open>)\<close> in a text, for the proofs.\<close>

definition paren_depth :: "string \<Rightarrow> int" where
  "paren_depth s = int (count_list s CHR ''('') - int (count_list s CHR '')'')"


text \<open>
  A well-formed declaration, in its parts: the separators before the name (characters
  of \<open>" \n\t,"\<close>), the name, whitespace, \<open>as\<close> in any case, optional whitespace, the body
  between its parentheses, balanced, and the whitespace behind it. In a well-formed
  list of declarations each one but the first starts with a comma; its entry is the
  name with the stripped body.
\<close>

record decl =
  d_seps :: string
  d_name :: string
  d_ws1 :: string
  d_as :: string
  d_ws2 :: string
  d_body :: string
  d_ws3 :: string

definition decl_text :: "decl \<Rightarrow> string" where
  "decl_text d =
     d_seps d @ d_name d @ d_ws1 d @ d_as d @ d_ws2 d @ ''('' @ d_body d @ '')'' @ d_ws3 d"

definition decl_ok :: "decl \<Rightarrow> bool" where
  "decl_ok d =
     (list_all sep_char (d_seps d) \<and>
      match_name (d_name d) = Some (d_name d) \<and>
      d_ws1 d \<noteq> [] \<and> list_all py_isspace (d_ws1 d) \<and>
      length (d_as d) = 2 \<and> ci_match CHR ''a'' (d_as d ! 0) \<and> ci_match CHR ''s'' (d_as d ! 1) \<and>
      list_all py_isspace (d_ws2 d) \<and>
      balanced (d_body d) \<and>
      list_all py_isspace (d_ws3 d))"

definition decl_entry :: "decl \<Rightarrow> cte" where
  "decl_entry d = (d_name d, py_strip (d_body d))"


definition decls_text :: "decl list \<Rightarrow> string" where
  "decls_text ds = concat (map decl_text ds)"

definition decls_ok :: "decl list \<Rightarrow> bool" where
  "decls_ok ds =
     (ds \<noteq> [] \<and> list_all decl_ok ds \<and>
      list_all (\<lambda>d. d_seps d \<noteq> [] \<and> hd (d_seps d) = CHR '','') (tl ds))"


text \<open>
  The states of the main loop: it starts behind the keyword with nothing captured, and
  each iteration that captures an entry and finds a comma goes on from that comma.
\<close>

inductive reaches :: "string \<Rightarrow> nat \<Rightarrow> cte list \<Rightarrow> bool" for sql where
  after_with: "search_with sql = Some pos \<Longrightarrow> reaches sql pos []"
| capture: "reaches sql pos ctes \<Longrightarrow> pos < length sql \<Longrightarrow> loop_step sql pos = More c pos' \<Longrightarrow>
     reaches sql pos' (ctes @ [c])"


section \<open>The loops return positions\<close>

lemma skip_sep_eq: "skip_sep sql pos = Inr (pos + length (takeWhile sep_char (drop pos sql)))"
proof (induction sql pos rule: skip_sep.induct)
  case (1 sql pos)
  show ?case
  proof (cases "pos < length sql")
    case True
    then have d: "drop pos sql = sql ! pos # drop (Suc pos) sql"
      by (simp add: Cons_nth_drop_Suc)
    show ?thesis
      using True 1 d
      by (subst skip_sep.simps) (simp add: char_at_def)
  next
    case False
    then show ?thesis by (subst skip_sep.simps) simp
  qed
qed

lemma skip_space_eq: "skip_space sql pos = Inr (pos + length (takeWhile py_isspace (drop pos sql)))"
proof (induction sql pos rule: skip_space.induct)
  case (1 sql pos)
  show ?case
  proof (cases "pos < length sql")
    case True
    then have d: "drop pos sql = sql ! pos # drop (Suc pos) sql"
      by (simp add: Cons_nth_drop_Suc)
    show ?thesis
      using True 1 d
      by (subst skip_space.simps) (simp add: char_at_def)
  next
    case False
    then show ?thesis by (subst skip_space.simps) simp
  qed
qed

lemma match_brackets_eq: "match_brackets sql pos n = Inr (pos + bracket_len n (drop pos sql))"
proof (induction sql pos n rule: match_brackets.induct)
  case (1 sql pos n)
  show ?case
  proof (cases "pos < length sql \<and> n > 0")
    case True
    then have d: "drop pos sql = sql ! pos # drop (Suc pos) sql"
      by (simp add: Cons_nth_drop_Suc)
    show ?thesis
      using True 1 d
      by (subst match_brackets.simps) (simp add: char_at_def)
  next
    case False
    then show ?thesis by (subst match_brackets.simps) (cases "drop pos sql"; auto)
  qed
qed

lemma char_eq_code: "c = d \<longleftrightarrow> (of_char c :: nat) = of_char d"
  by (simp add: of_char_eq_iff)
lemma py_lower_paren: "py_lower c = CHR ''('' \<longleftrightarrow> c = CHR ''(''"
proof -
  define n where "n = (of_char c :: nat)"
  have lt: "n < 256" unfolding n_def by simp
  have c40: "c = CHR ''('' \<longleftrightarrow> n = 40"
    unfolding n_def by (subst char_eq_code) simp
  have "65 \<le> n \<Longrightarrow> char_of (n + 32) \<noteq> CHR ''(''"
    using lt by (subst char_eq_code) (auto simp: mod_if)
  then show ?thesis
    using c40 lt by (auto simp: py_lower_def ascii_upper_def Let_def n_def[symmetric])
qed

lemma find_upt_first:
  "start + length pre < length s \<Longrightarrow> \<forall>k < length pre. \<not> P (start + k) \<Longrightarrow> P (start + length pre) \<Longrightarrow>
   List.find P [start..<length s] = Some (start + length pre)"
proof (induction pre arbitrary: start)
  case Nil
  then show ?case by (simp add: upt_conv_Cons)
next
  case (Cons a pre)
  have "\<not> P start" using Cons.prems(2)[rule_format, of 0] by simp
  moreover have "List.find P [Suc start..<length s] = Some (Suc start + length pre)"
  proof (rule Cons.IH)
    show "Suc start + length pre < length s" using Cons.prems(1) by simp
    show "\<forall>k<length pre. \<not> P (Suc start + k)"
      using Cons.prems(2) by (metis Suc_less_eq add_Suc_shift length_Cons)
    show "P (Suc start + length pre)" using Cons.prems(3) by simp
  qed
  moreover have "start < length s" using Cons.prems(1) by simp
  ultimately show ?case by (simp add: upt_conv_Cons)
qed

lemma py_find_first:
  assumes "drop start s = pre @ c # rest" and "c \<notin> set pre"
  shows "py_find s c start = int (start + length pre)"
proof -
  have len: "start + length pre < length s"
  proof -
    have "length (drop start s) = length pre + Suc (length rest)" using assms(1) by simp
    then show ?thesis by simp
  qed
  have nth: "\<And>k. k \<le> length pre \<Longrightarrow> s ! (start + k) = (pre @ c # rest) ! k"
    using assms(1) len by (metis add_leD1 less_or_eq_imp_le nth_drop)
  have "\<forall>k < length pre. \<not> (s ! (start + k) = c)"
    using nth assms(2) by (auto simp: nth_append)
  moreover have "s ! (start + length pre) = c" using nth[of "length pre"] by simp
  ultimately have "List.find (\<lambda>i. s ! i = c) [start..<length s] = Some (start + length pre)"
    using len by (intro find_upt_first) auto
  then show ?thesis by (simp add: py_find_def)
qed


lemma py_find_lower_paren:
  assumes "drop start s = pre @ CHR ''('' # rest" and "CHR ''('' \<notin> set pre"
  shows "py_find (map py_lower s) CHR ''('' start = int (start + length pre)"
proof -
  have "drop start (map py_lower s) = map py_lower pre @ CHR ''('' # map py_lower rest"
    using assms(1) by (simp add: drop_map py_lower_paren[THEN iffD2])
  moreover have "CHR ''('' \<notin> set (map py_lower pre)"
    using assms(2) by (metis (no_types) imageE list.set_map py_lower_paren)
  ultimately have "py_find (map py_lower s) CHR ''('' start = int (start + length (map py_lower pre))"
    by (rule py_find_first)
  then show ?thesis by simp
qed

lemma isspace_not_paren: "py_isspace c \<Longrightarrow> c \<noteq> CHR ''(''"
  by (auto simp: py_isspace_def)

lemma ci_match_not_paren: "ci_match CHR ''a'' c \<or> ci_match CHR ''s'' c \<Longrightarrow> c \<noteq> CHR ''(''"
  by (auto simp: ci_match_def)

lemma match_as_paren_find:
  assumes "match_as_paren (drop pos sql)"
  shows "py_find (map py_lower sql) CHR ''('' pos =
           int (pos + 2 + length (takeWhile py_isspace (drop (pos + 2) sql)))"
proof -
  from assms obtain a s rest where d: "drop pos sql = a # s # rest"
    by (cases "drop pos sql" rule: match_as_paren.cases) auto
  let ?ws = "takeWhile py_isspace rest"
  from assms d obtain rest' where r: "dropWhile py_isspace rest = CHR ''('' # rest'"
    and ci: "ci_match CHR ''a'' a" "ci_match CHR ''s'' s"
    by (auto split: list.splits)
  have "rest = ?ws @ CHR ''('' # rest'" using r by (metis takeWhile_dropWhile_id)
  then have "drop pos sql = (a # s # ?ws) @ CHR ''('' # rest'" using d by simp
  moreover have "CHR ''('' \<notin> set (a # s # ?ws)"
    using ci ci_match_not_paren isspace_not_paren by (auto dest: set_takeWhileD)
  ultimately have "py_find (map py_lower sql) CHR ''('' pos = int (pos + length (a # s # ?ws))"
    by (rule py_find_lower_paren)
  moreover have "drop (pos + 2) sql = rest"
    using d by (metis add.commute drop_drop drop_Suc_Cons drop0 numeral_2_eq_2)
  ultimately show ?thesis by simp
qed

lemma match_name_length: "match_name t = Some n \<Longrightarrow> 0 < length n"
  by (cases t) (auto split: if_splits)


text \<open>Every iteration of the main loop that goes on has moved the position forward.\<close>

termination parse_loop
proof (relation "measure (\<lambda>(sql, pos, ctes). length sql - pos)", goal_cases)
  case 1
  then show ?case by simp
next
  case (2 sql pos ctes pos1 cte_name pos2 start pos3 cte_sql ctes' pos4 c)
  have "pos \<le> pos1" using 2(2) by (simp add: skip_sep_eq)
  moreover have "0 < length cte_name" using 2(3) by (rule match_name_length)
  moreover have "pos1 + length cte_name \<le> pos2" using 2(4) by (simp add: skip_space_eq)
  moreover have "pos2 < start"
    using 2(5,6) by (simp add: match_as_paren_find)
  moreover have "start \<le> pos3" using 2(7) by (simp add: match_brackets_eq)
  moreover have "pos3 \<le> pos4" using 2 by (simp add: skip_space_eq)
  ultimately show ?case using 2(1) by simp
qed

declare parse_loop.simps [simp del]



text \<open>The main loop, one iteration at a time.\<close>

lemma py_slice_nat: "py_slice s (int a) (int b) = take (b - a) (drop a s)"
proof (cases "a \<le> length s")
  case True
  show ?thesis
  proof (cases "b \<le> length s")
    case True
    with \<open>a \<le> length s\<close> show ?thesis by (simp add: py_slice_def Let_def min_def nat_diff_distrib')
  next
    case False
    with \<open>a \<le> length s\<close> show ?thesis by (simp add: py_slice_def Let_def min_def nat_diff_distrib')
  qed
next
  case False
  then show ?thesis by (simp add: py_slice_def Let_def min_def)
qed


lemma find_start:
  "match_as_paren (drop pos2 sql) \<Longrightarrow>
   nat (py_find (map py_lower sql) CHR ''('' pos2 + 1) =
     pos2 + 3 + length (takeWhile py_isspace (drop (pos2 + 2) sql))"
  by (simp add: match_as_paren_find)

lemma py_slice_body: "0 < b \<Longrightarrow> py_slice s (int a) (int b - 1) = take (b - 1 - a) (drop a s)"
proof -
  assume "0 < b"
  then have "int b - 1 = int (b - 1)" by simp
  then show ?thesis by (simp only: py_slice_nat)
qed

lemma parse_loop_step:
  "parse_loop sql pos ctes =
     (if pos < length sql then
        (case loop_step sql pos of
           Stop \<Rightarrow> Inr ctes
         | Last c \<Rightarrow> Inr (ctes @ [c])
         | More c pos' \<Rightarrow> parse_loop sql pos' (ctes @ [c]))
      else Inr ctes)"
proof (cases "pos < length sql")
  case False
  then show ?thesis by (subst parse_loop.simps) simp
next
  case True
  define pos1 where "pos1 = pos + length (takeWhile sep_char (drop pos sql))"
  have s1: "skip_sep sql pos = Inr pos1" by (simp add: skip_sep_eq pos1_def)
  show ?thesis
  proof (cases "match_name (drop pos1 sql)")
    case None
    have "loop_step sql pos = Stop"
      by (simp only: loop_step_def Let_def pos1_def[symmetric] None option.case)
    then show ?thesis
      using True None s1 by (subst parse_loop.simps) simp
  next
    case (Some cte_name)
    define pos2 where "pos2 = pos1 + length cte_name +
       length (takeWhile py_isspace (drop (pos1 + length cte_name) sql))"
    have s2: "skip_space sql (pos1 + length cte_name) = Inr pos2"
      by (simp add: skip_space_eq pos2_def)
    show ?thesis
    proof (cases "match_as_paren (drop pos2 sql)")
      case False
      have "loop_step sql pos = Stop"
        by (simp only: loop_step_def Let_def pos1_def[symmetric] Some option.case
              pos2_def[symmetric] False not_False_eq_True if_True)
      then show ?thesis
        using True Some s1 s2 False by (subst parse_loop.simps) simp
    next
      case m: True
      define start where "start = pos2 + 3 + length (takeWhile py_isspace (drop (pos2 + 2) sql))"
      define pos3 where "pos3 = start + bracket_len 1 (drop start sql)"
      define c where "c = (cte_name, py_strip (take (pos3 - 1 - start) (drop start sql)))"
      define pos4 where "pos4 = pos3 + length (takeWhile py_isspace (drop pos3 sql))"
      have st: "nat (py_find (map py_lower sql) CHR ''('' pos2 + 1) = start"
        using find_start[OF m] by (simp add: start_def)
      have s3: "match_brackets sql start (Suc 0) = Inr pos3"
        by (simp add: match_brackets_eq pos3_def)
      have "0 < pos3" by (simp add: pos3_def start_def)
      then have sl: "py_slice sql (int start) (int pos3 - 1) = take (pos3 - 1 - start) (drop start sql)"
        by (rule py_slice_body)
      have s4: "skip_space sql pos3 = Inr pos4"
        by (simp add: skip_space_eq pos4_def)
      have ls: "loop_step sql pos =
          (if pos4 < length sql \<and> sql ! pos4 = CHR '','' then More c pos4 else Last c)"
        by (simp only: loop_step_def Let_def pos1_def[symmetric] Some option.case
              pos2_def[symmetric] m not_True_eq_False if_False start_def[symmetric]
              pos3_def[symmetric] pos4_def[symmetric] c_def[symmetric])
      have pl: "parse_loop sql pos ctes =
          (if pos4 \<ge> length sql then Inr (ctes @ [c])
           else if sql ! pos4 \<noteq> CHR '','' then Inr (ctes @ [c])
           else parse_loop sql pos4 (ctes @ [c]))"
        using True Some m
        by (subst parse_loop.simps)
           (simp add: s1 s2 st s3 sl s4 c_def char_at_def Let_def)
      show ?thesis
        using True by (simp add: ls pl)
    qed
  qed
qed

lemma loop_step_More: "loop_step sql pos = More c pos' \<Longrightarrow> pos < pos' \<and> pos' < length sql"
proof -
  assume a: "loop_step sql pos = More c pos'"
  define pos1 where "pos1 = pos + length (takeWhile sep_char (drop pos sql))"
  from a obtain cte_name where n: "match_name (drop pos1 sql) = Some cte_name"
    by (cases "match_name (drop pos1 sql)") (simp_all only: loop_step_def Let_def pos1_def[symmetric] option.case step.distinct)
  define pos2 where "pos2 = pos1 + length cte_name +
       length (takeWhile py_isspace (drop (pos1 + length cte_name) sql))"
  have m: "match_as_paren (drop pos2 sql)"
  proof (rule ccontr)
    assume f: "\<not> match_as_paren (drop pos2 sql)"
    have "loop_step sql pos = Stop"
      by (simp only: loop_step_def Let_def pos1_def[symmetric] n option.case
              pos2_def[symmetric] f not_False_eq_True if_True)
    with a show False by simp
  qed
  define start where "start = pos2 + 3 + length (takeWhile py_isspace (drop (pos2 + 2) sql))"
  define pos3 where "pos3 = start + bracket_len 1 (drop start sql)"
  define d where "d = (cte_name, py_strip (take (pos3 - 1 - start) (drop start sql)))"
  define pos4 where "pos4 = pos3 + length (takeWhile py_isspace (drop pos3 sql))"
  have ls: "loop_step sql pos =
          (if pos4 < length sql \<and> sql ! pos4 = CHR '','' then More d pos4 else Last d)"
        by (simp only: loop_step_def Let_def pos1_def[symmetric] n option.case
              pos2_def[symmetric] m not_True_eq_False if_False start_def[symmetric]
              pos3_def[symmetric] pos4_def[symmetric] d_def[symmetric])
  with a have "pos' = pos4" "pos4 < length sql" by (auto split: if_splits)
  moreover have "pos < pos4"
    using match_name_length[OF n] by (simp add: pos4_def pos3_def start_def pos2_def pos1_def)
  ultimately show ?thesis by simp
qed

lemma parse_loop_Inr: "\<exists>r. parse_loop sql pos ctes = Inr r"
proof (induction "length sql - pos" arbitrary: pos ctes rule: less_induct)
  case less
  show ?case
  proof (cases "pos < length sql")
    case False
    then show ?thesis by (subst parse_loop_step) simp
  next
    case True
    show ?thesis
    proof (cases "loop_step sql pos")
      case (More c pos')
      have "length sql - pos' < length sql - pos"
        using loop_step_More[OF More] by auto
      from less[OF this] show ?thesis
        using True More by (subst parse_loop_step) simp
    next
      case Stop
      then show ?thesis using True by (subst parse_loop_step) simp
    next
      case (Last c)
      then show ?thesis using True by (subst parse_loop_step) simp
    qed
  qed
qed



text \<open>The result of the main loop is no longer than what is left of the statement.\<close>

lemma parse_loop_length:
  "parse_loop sql pos ctes = Inr r \<Longrightarrow> length r \<le> length ctes + (length sql - pos)"
proof (induction "length sql - pos" arbitrary: pos ctes rule: less_induct)
  case less
  show ?case
  proof (cases "pos < length sql")
    case False
    then show ?thesis using less.prems by (subst (asm) parse_loop_step) simp
  next
    case True
    show ?thesis
    proof (cases "loop_step sql pos")
      case (More c pos')
      have lt: "pos < pos'" "pos' < length sql" using loop_step_More[OF More] by auto
      then have "length sql - pos' < length sql - pos" by simp
      moreover have "parse_loop sql pos' (ctes @ [c]) = Inr r"
        using less.prems True More by (subst (asm) parse_loop_step) simp
      ultimately have "length r \<le> length (ctes @ [c]) + (length sql - pos')"
        by (rule less.hyps)
      then show ?thesis using lt by simp
    next
      case Stop
      then show ?thesis using True less.prems by (subst (asm) parse_loop_step) auto
    next
      case (Last c)
      then show ?thesis using True less.prems by (subst (asm) parse_loop_step) auto
    qed
  qed
qed

lemma py_strip_length: "length (py_strip s) \<le> length s"
proof -
  have "length (py_strip s) = length (dropWhile py_isspace (rev (dropWhile py_isspace s)))"
    by (simp add: py_strip_def)
  also have "\<dots> \<le> length (rev (dropWhile py_isspace s))" by (rule length_dropWhile_le)
  also have "\<dots> \<le> length s" by (simp add: length_dropWhile_le)
  finally show ?thesis .
qed



section \<open>The loop of \<open>build_executable_cte_sql\<close>\<close>

lemma build_loop_snd: "snd (build_loop ctes (r, acc)) = acc @ ctes"
  by (induction ctes arbitrary: r acc) (auto simp: Let_def)

lemma build_loop_append: "build_loop (xs @ ys) st = build_loop ys (build_loop xs st)"
proof (induction xs arbitrary: st)
  case Nil
  then show ?case by simp
next
  case (Cons x xs)
  obtain n b where x: "x = (n, b)" by (cases x)
  obtain r acc where st: "st = (r, acc)" by (cases st)
  show ?case using Cons.IH by (simp add: x st Let_def)
qed

lemma build_loop_notin:
  "n \<notin> fst ` set ctes \<Longrightarrow> fst (build_loop ctes (r, acc)) n = r n"
  by (induction ctes arbitrary: r acc) (auto simp: Let_def)

lemma build_loop_last:
  "n \<notin> fst ` set ys \<Longrightarrow>
   fst (build_loop (xs @ (n, b) # ys) (r, acc)) n = Some (full_sql (acc @ xs @ [(n, b)]) n)"
proof (induction xs arbitrary: r acc)
  case Nil
  then show ?case by (simp add: Let_def build_loop_notin)
next
  case (Cons x xs)
  obtain m c where x: "x = (m, c)" by (cases x)
  show ?case using Cons.IH[OF Cons.prems] by (simp add: x Let_def)
qed

lemma build_loop_dom: "dom (fst (build_loop ctes (r, acc))) = dom r \<union> fst ` set ctes"
proof (induction ctes arbitrary: r acc)
  case Nil
  then show ?case by simp
next
  case (Cons x xs)
  obtain n b where x: "x = (n, b)" by (cases x)
  have ih: "dom (fst (build_loop xs (r(n \<mapsto> full_sql (acc @ [(n, b)]) n), acc @ [(n, b)]))) =
            dom (r(n \<mapsto> full_sql (acc @ [(n, b)]) n)) \<union> fst ` set xs"
    by (rule Cons.IH)
  show ?case
    by (simp add: x Let_def ih)
qed

lemma spec_statement_example:
  "spec_statement [(''a'', ''select 1''), (''b'', ''select * from a''), (''c'', ''select 2'')] =
     ''WITH\<newline>a AS (\<newline>select 1\<newline>),\<newline>b AS (\<newline>select * from a\<newline>),\<newline>c AS (\<newline>select 2\<newline>)\<newline>SELECT * FROM c''"
  by (simp add: spec_statement_def spec_rendering_def)

lemma py_join_Cons: "ys \<noteq> [] \<Longrightarrow> py_join sep (x # ys) = x @ sep @ py_join sep ys"
  by (cases ys) simp_all

lemma py_join_snoc: "py_join sep (xs @ [x]) = concat (map (\<lambda>y. y @ sep) xs) @ x"
  by (induction xs) (simp_all add: py_join_Cons)

lemma full_sql_spec: "full_sql (xs @ [p]) (fst p) = spec_statement (xs @ [p])"
proof -
  have "map (\<lambda>(n, s). n @ '' AS (\<newline>'' @ s @ ''\<newline>)'') (xs @ [p]) =
        map spec_rendering xs @ [spec_rendering p]"
    by (auto simp: spec_rendering_def split: prod.splits)
  then have "py_join '',\<newline>'' (map (\<lambda>(n, s). n @ '' AS (\<newline>'' @ s @ ''\<newline>)'') (xs @ [p])) =
        concat (map (\<lambda>y. y @ '',\<newline>'') (map spec_rendering xs)) @ spec_rendering p"
    by (simp only: py_join_snoc)
  then show ?thesis
    by (simp add: full_sql_def spec_statement_def comp_def)
qed

lemma py_join_append:
  "xs \<noteq> [] \<Longrightarrow> ys \<noteq> [] \<Longrightarrow> py_join sep (xs @ ys) = py_join sep xs @ sep @ py_join sep ys"
proof (induction sep xs rule: py_join.induct)
  case (2 sep x)
  then show ?case by (cases ys) auto
qed auto

lemma full_sql_prefix_differs:
  assumes "xs \<noteq> []" and "ys \<noteq> []"
  shows "full_sql xs n \<noteq> full_sql (xs @ ys) m"
proof -
  let ?r = "\<lambda>(n, s). n @ '' AS (\<newline>'' @ s @ ''\<newline>)''"
  have "py_join '',\<newline>'' (map ?r (xs @ ys)) =
        py_join '',\<newline>'' (map ?r xs) @ '',\<newline>'' @ py_join '',\<newline>'' (map ?r ys)"
    using assms by (simp add: py_join_append)
  then show ?thesis by (simp add: full_sql_def)
qed

lemma full_sql_take_inj:
  assumes "0 < a" "a \<le> length ctes" "0 < b" "b \<le> length ctes"
    and "full_sql (take a ctes) n = full_sql (take b ctes) m"
  shows "a = b"
proof (rule ccontr)
  assume ne: "a \<noteq> b"
  have diff: "full_sql (take i ctes) x \<noteq> full_sql (take j ctes) y"
    if "0 < i" "i < j" "j \<le> length ctes" for i j x y
  proof -
    have "take j ctes = take i ctes @ drop i (take j ctes)"
      using append_take_drop_id[of i "take j ctes"] that by (simp add: min_def)
    moreover have "take i ctes \<noteq> []" using that by auto
    moreover have "drop i (take j ctes) \<noteq> []" using that by auto
    ultimately show ?thesis using full_sql_prefix_differs[of "take i ctes" "drop i (take j ctes)" x y] by simp
  qed
  from ne consider "a < b" | "b < a" by linarith
  then show False
  proof cases
    case 1 then show ?thesis using diff[of a b n m] assms by simp
  next
    case 2 then show ?thesis using diff[of b a m n] assms by simp
  qed
qed

lemma build_loop_Some:
  assumes "fst (build_loop ctes (Map.empty, [])) m = Some v"
  shows "\<exists>k < length ctes. fst (ctes ! k) = m \<and> v = full_sql (take (Suc k) ctes) m \<and>
           (\<forall>k'. k < k' \<and> k' < length ctes \<longrightarrow> fst (ctes ! k') \<noteq> m)"
proof -
  have "m \<in> fst ` set ctes"
    using assms build_loop_notin[of m ctes Map.empty "[]"] by (cases "m \<in> fst ` set ctes") auto
  then have "\<exists>x \<in> set ctes. fst x = m" by auto
  then obtain xs x ys where sp: "ctes = xs @ x # ys" "fst x = m" "\<forall>y \<in> set ys. fst y \<noteq> m"
    using split_list_last_prop[of ctes "\<lambda>x. fst x = m"] by blast
  obtain b where x: "x = (m, b)" using sp(2) by (cases x) auto
  have "m \<notin> fst ` set ys" using sp(3) by auto
  from build_loop_last[OF this, of xs b Map.empty "[]"]
  have v: "v = full_sql (xs @ [(m, b)]) m" using assms sp(1) x by simp
  have "take (Suc (length xs)) ctes = xs @ [(m, b)]" using sp(1) x by simp
  moreover have "fst (ctes ! length xs) = m" using sp(1) x by simp
  moreover have "fst (ctes ! k') \<noteq> m" if "length xs < k'" "k' < length ctes" for k'
  proof -
    have "ctes ! k' = ys ! (k' - Suc (length xs))"
      using that sp(1) by (simp add: nth_append nth_Cons')
    moreover have "k' - Suc (length xs) < length ys" using that sp(1) by auto
    ultimately show ?thesis using sp(3) by (metis nth_mem)
  qed
  moreover have "length xs < length ctes" using sp(1) by simp
  ultimately show ?thesis using v by (intro exI[of _ "length xs"]) simp
qed



section \<open>Statements without the keyword\<close>

lemma isspace_not_word: "py_isspace c \<Longrightarrow> \<not> py_isword c"
  by (auto simp: py_isspace_def py_isword_def ascii_upper_def ascii_lower_def ascii_digit_def Let_def)

lemma ci_match_lower:
  assumes "ci_match l c" and "ascii_lower l"
  shows "py_lower c = l"
proof (cases "c = l")
  case True
  then show ?thesis using assms(2) by (auto simp: py_lower_def ascii_lower_def ascii_upper_def Let_def)
next
  case False
  then have e: "(of_char c :: nat) + 32 = of_char l" using assms(1) by (simp add: ci_match_def)
  then have "ascii_upper c" using assms(2) by (auto simp: ascii_lower_def ascii_upper_def Let_def)
  moreover have "char_of ((of_char c :: nat) + 32) = l" by (simp only: e char_of_char)
  ultimately show ?thesis by (simp add: py_lower_def Let_def)
qed

lemma ci_match_word:
  assumes "ci_match l c" and "ascii_lower l"
  shows "py_isword c"
proof (cases "c = l")
  case True
  then show ?thesis using assms(2) by (simp add: py_isword_def Let_def)
next
  case False
  then have e: "(of_char c :: nat) + 32 = of_char l" using assms(1) by (simp add: ci_match_def)
  then have "ascii_upper c" using assms(2) by (auto simp: ascii_lower_def ascii_upper_def Let_def)
  then show ?thesis by (simp add: py_isword_def Let_def)
qed

lemma strip_decomp:
  "\<exists>ws1 ws2. s = ws1 @ py_strip s @ ws2 \<and> (\<forall>c \<in> set ws1. py_isspace c) \<and>
      (\<forall>c \<in> set ws2. py_isspace c)"
proof -
  let ?t = "dropWhile py_isspace s"
  have 1: "s = takeWhile py_isspace s @ ?t" by simp
  have "rev (dropWhile py_isspace (rev ?t)) @ rev (takeWhile py_isspace (rev ?t)) =
        rev (takeWhile py_isspace (rev ?t) @ dropWhile py_isspace (rev ?t))"
    by (simp only: rev_append)
  also have "\<dots> = rev (rev ?t)" by (simp only: takeWhile_dropWhile_id)
  also have "\<dots> = ?t" by simp
  finally have 2: "?t = py_strip s @ rev (takeWhile py_isspace (rev ?t))"
    by (simp only: py_strip_def)
  have "s = takeWhile py_isspace s @ py_strip s @ rev (takeWhile py_isspace (rev ?t))"
    using 1 2 by metis
  moreover have "\<forall>c \<in> set (takeWhile py_isspace s). py_isspace c"
    by (auto dest: set_takeWhileD)
  moreover have "\<forall>c \<in> set (rev (takeWhile py_isspace (rev ?t))). py_isspace c"
    by (auto dest: set_takeWhileD)
  ultimately show ?thesis by blast
qed

lemma with_at_whole_word:
  assumes w: "with_at t i"
    and s: "s = ws1 @ t @ ws2"
    and ws1: "\<forall>c \<in> set ws1. py_isspace c" and ws2: "\<forall>c \<in> set ws2. py_isspace c"
  shows "whole_word_with_at s (length ws1 + i)"
proof -
  let ?k = "length ws1"
  from w have len: "i + 4 \<le> length t"
    and c0: "ci_match CHR ''w'' (t ! i)" and c1: "ci_match CHR ''i'' (t ! (i + 1))"
    and c2: "ci_match CHR ''t'' (t ! (i + 2))" and c3: "ci_match CHR ''h'' (t ! (i + 3))"
    and b0: "word_boundary t i" and b4: "word_boundary t (i + 4)"
    by (auto simp: with_at_def)
  have nth: "s ! (?k + j) = t ! j" if "j < length t" for j
    using that s by (simp add: nth_append)
  have lw: "ascii_lower CHR ''w''" "ascii_lower CHR ''i''" "ascii_lower CHR ''t''" "ascii_lower CHR ''h''"
    by (simp_all add: ascii_lower_def)
  have tk: "take 4 (drop i t) = [t ! i, t ! (i + 1), t ! (i + 2), t ! (i + 3)]"
  proof (rule nth_equalityI)
    show "length (take 4 (drop i t)) = length [t ! i, t ! (i + 1), t ! (i + 2), t ! (i + 3)]"
      using len by simp
    fix j assume "j < length (take 4 (drop i t))"
    then have "j < 4" by simp
    then consider "j = 0" | "j = 1" | "j = 2" | "j = 3" by linarith
    then show "take 4 (drop i t) ! j = [t ! i, t ! (i + 1), t ! (i + 2), t ! (i + 3)] ! j"
      using len by cases (simp_all add: numeral_3_eq_3)
  qed
  have "drop (?k + i) s = drop i t @ ws2" using s len by simp
  then have "take 4 (drop (?k + i) s) = take 4 (drop i t)" using len by simp
  then have m: "map py_lower (take 4 (drop (?k + i) s)) = ''with''"
    using tk ci_match_lower[OF c0 lw(1)] ci_match_lower[OF c1 lw(2)]
      ci_match_lower[OF c2 lw(3)] ci_match_lower[OF c3 lw(4)] by simp
  have before: "?k + i = 0 \<or> \<not> py_isword (s ! (?k + i - 1))"
  proof (cases "i = 0")
    case True
    show ?thesis
    proof (cases "ws1 = []")
      case True
      with \<open>i = 0\<close> show ?thesis by simp
    next
      case False
      then have "s ! (?k - 1) = last ws1" using s by (simp add: nth_append last_conv_nth)
      moreover have "py_isspace (last ws1)" using False ws1 by simp
      ultimately show ?thesis using \<open>i = 0\<close> isspace_not_word by simp
    qed
  next
    case False
    have "py_isword (t ! i)" using ci_match_word[OF c0 lw(1)] .
    then have "\<not> py_isword (t ! (i - 1))"
      using b0 False len by (auto simp: word_boundary_def)
    moreover have "s ! (?k + (i - 1)) = t ! (i - 1)" using len by (intro nth) simp
    ultimately show ?thesis using False by simp
  qed
  have after: "?k + i + 4 = length s \<or> \<not> py_isword (s ! (?k + i + 4))"
  proof (cases "i + 4 = length t")
    case True
    show ?thesis
    proof (cases "ws2 = []")
      case True
      with \<open>i + 4 = length t\<close> s show ?thesis by simp
    next
      case False
      then have "s ! (?k + i + 4) = hd ws2"
        using s True by (simp add: nth_append hd_conv_nth add.assoc)
      moreover have "py_isspace (hd ws2)" using False ws2 by simp
      ultimately show ?thesis using isspace_not_word by simp
    qed
  next
    case False
    then have lt: "i + 4 < length t" using len by simp
    have "py_isword (t ! (i + 3))" using ci_match_word[OF c3 lw(4)] .
    then have "\<not> py_isword (t ! (i + 4))"
      using b4 lt by (auto simp: word_boundary_def add.commute)
    moreover have "s ! (?k + (i + 4)) = t ! (i + 4)" using lt by (rule nth)
    ultimately show ?thesis by (simp add: add.assoc)
  qed
  have "?k + i + 4 \<le> length s" using s len by simp
  then show ?thesis using m before after by (simp add: whole_word_with_at_def)
qed

lemma search_with_None:
  assumes "\<not> has_whole_word_with s"
  shows "search_with (py_strip s) = None"
proof (rule ccontr)
  assume "search_with (py_strip s) \<noteq> None"
  then obtain i where "with_at (py_strip s) i"
    by (auto simp: search_with_def find_Some_iff split: option.splits)
  moreover obtain ws1 ws2 where d: "s = ws1 @ py_strip s @ ws2" "\<forall>c \<in> set ws1. py_isspace c"
      "\<forall>c \<in> set ws2. py_isspace c"
    using strip_decomp by blast
  ultimately have ww: "whole_word_with_at s (length ws1 + i)"
    by (rule with_at_whole_word)
  then have "length ws1 + i < length s" by (simp add: whole_word_with_at_def)
  with ww have "has_whole_word_with s" by (auto simp: has_whole_word_with_def)
  with assms show False by simp
qed



section \<open>Bodies of balanced statements\<close>

lemma paren_depth_simps:
  "paren_depth [] = 0"
  "paren_depth (c # cs) =
     (if c = CHR ''('' then 1 else if c = CHR '')'' then - 1 else 0) + paren_depth cs"
  "paren_depth (xs @ ys) = paren_depth xs + paren_depth ys"
  by (simp_all add: paren_depth_def)

lemma bracket_len_zero: "bracket_len 0 xs = 0"
  by (cases xs) simp_all

lemma bracket_len_balanced:
  "0 < n \<Longrightarrow> paren_depth xs \<le> - int n \<Longrightarrow>
   1 \<le> bracket_len n xs \<and> paren_depth (take (bracket_len n xs - 1) xs) = 1 - int n"
proof (induction xs arbitrary: n)
  case Nil
  then show ?case by (simp add: paren_depth_simps)
next
  case (Cons c cs)
  show ?case
  proof (cases "c = CHR ''(''")
    case True
    have "paren_depth cs \<le> - int (n + 1)"
      using Cons.prems True by (simp add: paren_depth_simps)
    from Cons.IH[OF _ this]
    have ih: "1 \<le> bracket_len (n + 1) cs"
      "paren_depth (take (bracket_len (n + 1) cs - 1) cs) = 1 - int (n + 1)" by simp_all
    have "take (bracket_len (n + 1) cs) (c # cs) = c # take (bracket_len (n + 1) cs - 1) cs"
      using ih(1) by (cases "bracket_len (n + 1) cs") simp_all
    then show ?thesis
      using Cons.prems(1) True ih by (simp add: paren_depth_simps)
  next
    case False
    show ?thesis
    proof (cases "c = CHR '')''")
      case c: True
      show ?thesis
      proof (cases "n = 1")
        case True
        then show ?thesis using c by (simp add: bracket_len_zero paren_depth_simps)
      next
        case False
        then have n: "0 < n - 1" using Cons.prems(1) by simp
        have "paren_depth cs \<le> - int (n - 1)"
          using Cons.prems c n by (simp add: paren_depth_simps)
        from Cons.IH[OF n this]
        have ih: "1 \<le> bracket_len (n - 1) cs"
          "paren_depth (take (bracket_len (n - 1) cs - 1) cs) = 1 - int (n - 1)" by simp_all
        have "take (bracket_len (n - 1) cs) (c # cs) = c # take (bracket_len (n - 1) cs - 1) cs"
          using ih(1) by (cases "bracket_len (n - 1) cs") simp_all
        then show ?thesis
          using Cons.prems(1) c ih n by (simp add: paren_depth_simps)
      qed
    next
      case nc: False
      have "paren_depth cs \<le> - int n"
        using Cons.prems False nc by (simp add: paren_depth_simps)
      from Cons.IH[OF Cons.prems(1) this]
      have ih: "1 \<le> bracket_len n cs"
        "paren_depth (take (bracket_len n cs - 1) cs) = 1 - int n" by simp_all
      have "take (bracket_len n cs) (c # cs) = c # take (bracket_len n cs - 1) cs"
        using ih(1) by (cases "bracket_len n cs") simp_all
      then show ?thesis
        using Cons.prems(1) False nc ih by (simp add: paren_depth_simps)
    qed
  qed
qed

lemma count_spaces: "\<forall>x \<in> set ws. py_isspace x \<Longrightarrow> \<not> py_isspace c \<Longrightarrow> count_list ws c = 0"
  by (induction ws) auto

lemma count_strip:
  assumes "\<not> py_isspace c"
  shows "count_list (py_strip s) c = count_list s c"
proof -
  obtain ws1 ws2 where d: "s = ws1 @ py_strip s @ ws2" "\<forall>c \<in> set ws1. py_isspace c"
      "\<forall>c \<in> set ws2. py_isspace c"
    using strip_decomp by blast
  have "count_list s c = count_list ws1 c + count_list (py_strip s) c + count_list ws2 c"
    by (subst d(1)) simp
  then show ?thesis using count_spaces[OF d(2) assms] count_spaces[OF d(3) assms] by simp
qed

lemma paren_not_space: "\<not> py_isspace CHR ''(''" "\<not> py_isspace CHR '')''"
  by (simp_all add: py_isspace_def)

lemma balanced_prefix:
  assumes "balanced s" and "n \<le> length s"
  shows "count_list (take n s) CHR '')'' \<le> count_list (take n s) CHR ''(''"
proof -
  have "n \<in> set [0..<Suc (length s)]" using assms(2) by auto
  with assms(1) show ?thesis unfolding balanced_def by blast
qed

lemma balanced_strip:
  assumes "balanced s"
  shows "balanced (py_strip s)"
proof -
  define t where "t = py_strip s"
  obtain ws1 ws2 where d: "s = ws1 @ t @ ws2" "\<forall>c \<in> set ws1. py_isspace c"
      "\<forall>c \<in> set ws2. py_isspace c"
    using strip_decomp[of s] unfolding t_def by blast
  have pre: "count_list (take n t) CHR '')'' \<le> count_list (take n t) CHR ''(''" if "n \<le> length t" for n
  proof -
    have tk: "take (length ws1 + n) s = ws1 @ take n t"
      using that by (simp add: d(1))
    have "length ws1 + n \<le> length s"
      using that by (simp add: d(1))
    with assms have "count_list (take (length ws1 + n) s) CHR '')'' \<le>
          count_list (take (length ws1 + n) s) CHR ''(''"
      by (rule balanced_prefix)
    then show ?thesis
      unfolding tk
      using count_spaces[OF d(2) paren_not_space(1)] count_spaces[OF d(2) paren_not_space(2)] by simp
  qed
  have "count_list t CHR ''('' = count_list t CHR '')''"
    using assms by (simp add: balanced_def t_def count_strip paren_not_space)
  then have "balanced t" using pre by (auto simp: balanced_def)
  then show ?thesis by (simp add: t_def)
qed

lemma match_as_paren_nth:
  assumes "match_as_paren (drop pos sql)"
  shows "pos + 2 + length (takeWhile py_isspace (drop (pos + 2) sql)) < length sql \<and>
         sql ! (pos + 2 + length (takeWhile py_isspace (drop (pos + 2) sql))) = CHR ''(''"
proof -
  from assms obtain a s rest where d: "drop pos sql = a # s # rest"
    by (cases "drop pos sql" rule: match_as_paren.cases) auto
  let ?ws = "takeWhile py_isspace rest"
  from assms d obtain rest' where r: "dropWhile py_isspace rest = CHR ''('' # rest'"
    by (auto split: list.splits)
  have "rest = ?ws @ CHR ''('' # rest'" using r by (metis takeWhile_dropWhile_id)
  then have e: "drop pos sql = (a # s # ?ws) @ CHR ''('' # rest'" using d by simp
  have rr: "drop (pos + 2) sql = rest"
    using d by (metis add.commute drop_drop drop_Suc_Cons drop0 numeral_2_eq_2)
  have "length (drop pos sql) = length ?ws + 3 + length rest'"
    by (subst e) simp
  then have lt: "pos + 2 + length ?ws < length sql" by simp
  have "drop pos sql ! (2 + length ?ws) = CHR ''(''"
    by (subst e) (simp add: nth_append)
  moreover have "drop pos sql ! (2 + length ?ws) = sql ! (pos + (2 + length ?ws))"
    using lt by (intro nth_drop) simp
  ultimately show ?thesis using lt rr by (simp add: add.assoc)
qed

lemma loop_step_capture:
  assumes "loop_step sql pos = More c pos' \<or> loop_step sql pos = Last c"
  shows "\<exists>start. 0 < start \<and> start \<le> length sql \<and> sql ! (start - 1) = CHR ''('' \<and>
           snd c = py_strip (take (bracket_len 1 (drop start sql) - 1) (drop start sql))"
proof -
  define pos1 where "pos1 = pos + length (takeWhile sep_char (drop pos sql))"
  have "match_name (drop pos1 sql) \<noteq> None"
  proof
    assume e: "match_name (drop pos1 sql) = None"
    have "loop_step sql pos = Stop"
      by (simp only: loop_step_def Let_def pos1_def[symmetric] e option.case)
    with assms show False by simp
  qed
  then obtain cte_name where n: "match_name (drop pos1 sql) = Some cte_name" by blast
  define pos2 where "pos2 = pos1 + length cte_name +
       length (takeWhile py_isspace (drop (pos1 + length cte_name) sql))"
  have m: "match_as_paren (drop pos2 sql)"
  proof (rule ccontr)
    assume f: "\<not> match_as_paren (drop pos2 sql)"
    have "loop_step sql pos = Stop"
      by (simp only: loop_step_def Let_def pos1_def[symmetric] n option.case
              pos2_def[symmetric] f not_False_eq_True if_True)
    with assms show False by simp
  qed
  define start where "start = pos2 + 3 + length (takeWhile py_isspace (drop (pos2 + 2) sql))"
  define pos3 where "pos3 = start + bracket_len 1 (drop start sql)"
  define d where "d = (cte_name, py_strip (take (pos3 - 1 - start) (drop start sql)))"
  define pos4 where "pos4 = pos3 + length (takeWhile py_isspace (drop pos3 sql))"
  have ls: "loop_step sql pos =
          (if pos4 < length sql \<and> sql ! pos4 = CHR '','' then More d pos4 else Last d)"
        by (simp only: loop_step_def Let_def pos1_def[symmetric] n option.case
              pos2_def[symmetric] m not_True_eq_False if_False start_def[symmetric]
              pos3_def[symmetric] pos4_def[symmetric] d_def[symmetric])
  with assms have "c = d" by (auto split: if_splits)
  moreover have "pos3 - 1 - start = bracket_len 1 (drop start sql) - 1"
    by (simp add: pos3_def)
  ultimately have "snd c = py_strip (take (bracket_len 1 (drop start sql) - 1) (drop start sql))"
    by (simp add: d_def)
  moreover have "0 < start" "start \<le> length sql" "sql ! (start - 1) = CHR ''(''"
    using match_as_paren_nth[OF m] by (simp_all add: start_def)
  ultimately show ?thesis by blast
qed

lemma captured_body_balanced:
  assumes b: "balanced sql" and s: "0 < start" "start \<le> length sql" "sql ! (start - 1) = CHR ''(''"
  shows "count_list (py_strip (take (bracket_len 1 (drop start sql) - 1) (drop start sql))) CHR ''('' =
         count_list (py_strip (take (bracket_len 1 (drop start sql) - 1) (drop start sql))) CHR '')''"
proof -
  have tk: "take start sql = take (start - 1) sql @ [CHR ''('']"
    using take_Suc_conv_app_nth[of "start - 1" sql] s by simp
  have "start - 1 \<le> length sql" using s by simp
  with b have "count_list (take (start - 1) sql) CHR '')'' \<le>
        count_list (take (start - 1) sql) CHR ''(''"
    by (rule balanced_prefix)
  then have "0 \<le> paren_depth (take (start - 1) sql)"
    by (simp add: paren_depth_def)
  then have "1 \<le> paren_depth (take start sql)"
    by (subst tk) (simp add: paren_depth_simps)
  moreover have "paren_depth sql = 0" using b by (simp add: balanced_def paren_depth_def)
  moreover have "paren_depth sql = paren_depth (take start sql) + paren_depth (drop start sql)"
    using paren_depth_simps(3)[of "take start sql" "drop start sql"] by simp
  ultimately have "paren_depth (drop start sql) \<le> - int 1" by simp
  from bracket_len_balanced[OF _ this]
  have "paren_depth (take (bracket_len 1 (drop start sql) - 1) (drop start sql)) = 0" by simp
  then show ?thesis by (simp add: paren_depth_def count_strip paren_not_space)
qed

lemma parse_loop_balanced:
  assumes "balanced sql"
  shows "\<forall>c \<in> set ctes. count_list (snd c) CHR ''('' = count_list (snd c) CHR '')'' \<Longrightarrow>
         parse_loop sql pos ctes = Inr r \<Longrightarrow>
         \<forall>c \<in> set r. count_list (snd c) CHR ''('' = count_list (snd c) CHR '')''"
proof (induction "length sql - pos" arbitrary: pos ctes rule: less_induct)
  case less
  show ?case
  proof (cases "pos < length sql")
    case False
    then show ?thesis using less.prems by (subst (asm) parse_loop_step) simp
  next
    case True
    show ?thesis
    proof (cases "loop_step sql pos")
      case Stop
      then show ?thesis using True less.prems by (subst (asm) parse_loop_step) auto
    next
      case (Last c)
      then have "count_list (snd c) CHR ''('' = count_list (snd c) CHR '')''"
        using loop_step_capture[of sql pos c] captured_body_balanced[OF assms] by metis
      moreover have "r = ctes @ [c]"
        using Last True less.prems(2) by (subst (asm) parse_loop_step) simp
      ultimately show ?thesis using less.prems(1) by simp
    next
      case (More c pos')
      then have "count_list (snd c) CHR ''('' = count_list (snd c) CHR '')''"
        using loop_step_capture[of sql pos c pos'] captured_body_balanced[OF assms] by metis
      then have inv: "\<forall>c \<in> set (ctes @ [c]). count_list (snd c) CHR ''('' = count_list (snd c) CHR '')''"
        using less.prems(1) by simp
      have "length sql - pos' < length sql - pos"
        using loop_step_More[OF More] by auto
      moreover have "parse_loop sql pos' (ctes @ [c]) = Inr r"
        using less.prems(2) True More by (subst (asm) parse_loop_step) simp
      ultimately show ?thesis using less.hyps inv by blast
    qed
  qed
qed



section \<open>The states the main loop reaches\<close>

lemma reaches_parse_loop:
  "reaches sql pos ctes \<Longrightarrow> search_with sql = Some e \<Longrightarrow>
   parse_loop sql e [] = parse_loop sql pos ctes"
proof (induction rule: reaches.induct)
  case (after_with pos)
  then show ?case by simp
next
  case (capture pos ctes c pos')
  have "parse_loop sql pos ctes = parse_loop sql pos' (ctes @ [c])"
    using capture.hyps(2,3) by (subst parse_loop_step) simp
  then show ?case using capture.IH[OF capture.prems] by simp
qed

lemma reaches_search: "reaches sql pos ctes \<Longrightarrow> \<exists>e. search_with sql = Some e"
  by (induction rule: reaches.induct) auto

lemma drop_dropWhile: "drop (n + length (takeWhile P (drop n xs))) xs = dropWhile P (drop n xs)"
proof -
  have "drop (length (takeWhile P (drop n xs))) (drop n xs) = dropWhile P (drop n xs)"
    by (simp add: dropWhile_eq_drop)
  then show ?thesis by (simp add: add.commute)
qed

lemma loop_step_malformed:
  assumes n: "match_name (dropWhile sep_char (drop pos sql)) = Some name"
    and m: "\<not> match_as_paren
               (dropWhile py_isspace (drop (length name) (dropWhile sep_char (drop pos sql))))"
  shows "loop_step sql pos = Stop" and "pos < length sql"
proof -
  define pos1 where "pos1 = pos + length (takeWhile sep_char (drop pos sql))"
  have d1: "drop pos1 sql = dropWhile sep_char (drop pos sql)"
    unfolding pos1_def by (rule drop_dropWhile)
  have n1: "match_name (drop pos1 sql) = Some name" using n d1 by simp
  define pos2 where "pos2 = pos1 + length name +
       length (takeWhile py_isspace (drop (pos1 + length name) sql))"
  have "drop pos2 sql = dropWhile py_isspace (drop (pos1 + length name) sql)"
    unfolding pos2_def by (rule drop_dropWhile)
  also have "drop (pos1 + length name) sql = drop (length name) (drop pos1 sql)"
    by (simp add: add.commute)
  finally have f: "\<not> match_as_paren (drop pos2 sql)" using m d1 by simp
  show "loop_step sql pos = Stop"
    by (simp only: loop_step_def Let_def pos1_def[symmetric] n1 option.case
              pos2_def[symmetric] f not_False_eq_True if_True)
  show "pos < length sql"
  proof (rule ccontr)
    assume "\<not> pos < length sql"
    then have "drop pos sql = []" by simp
    with n show False by simp
  qed
qed



section \<open>Well-formed statements\<close>

lemma takeWhile_all:
  "list_all P xs \<Longrightarrow> ys = [] \<or> \<not> P (hd ys) \<Longrightarrow> takeWhile P (xs @ ys) = xs"
proof (induction xs)
  case Nil
  then show ?case by (cases ys) auto
next
  case (Cons x xs)
  then show ?case by simp
qed

lemma dropWhile_all:
  "list_all P xs \<Longrightarrow> ys = [] \<or> \<not> P (hd ys) \<Longrightarrow> dropWhile P (xs @ ys) = ys"
proof (induction xs)
  case Nil
  then show ?case by (cases ys) auto
next
  case (Cons x xs)
  then show ?case by simp
qed

lemma drop_at: "drop pos sql = xs @ ys \<Longrightarrow> drop (pos + length xs) sql = ys"
proof -
  assume a: "drop pos sql = xs @ ys"
  have "drop (pos + length xs) sql = drop (length xs) (drop pos sql)"
    by (simp add: add.commute)
  then show ?thesis using a by simp
qed

lemma ident_start_not_sep: "ident_start c \<Longrightarrow> \<not> sep_char c"
  by (auto simp: ident_start_def sep_char_def ascii_lower_def ascii_upper_def)

lemma isspace_not_ident: "py_isspace c \<Longrightarrow> \<not> ident_char c"
  by (auto simp: ident_char_def py_isspace_def ascii_lower_def ascii_upper_def ascii_digit_def)

lemma ci_match_not_space: "ci_match CHR ''a'' c \<Longrightarrow> \<not> py_isspace c"
  by (auto simp: ci_match_def py_isspace_def)

lemma match_name_append:
  assumes "match_name n = Some n" and "r = [] \<or> \<not> ident_char (hd r)"
  shows "match_name (n @ r) = Some n"
proof -
  from assms(1) obtain c cs where n: "n = c # cs" "ident_start c" "takeWhile ident_char cs = cs"
    by (cases n) (auto split: if_splits)
  have "list_all ident_char cs"
    using n(3) by (metis list_all_iff set_takeWhileD)
  then have "takeWhile ident_char (cs @ r) = cs" using assms(2) by (rule takeWhile_all)
  then show ?thesis using n by simp
qed

lemma bracket_len_body:
  "0 < n \<Longrightarrow> \<forall>k \<le> length body. - int n < paren_depth (take k body) \<Longrightarrow>
   paren_depth body = 1 - int n \<Longrightarrow>
   bracket_len n (body @ CHR '')'' # tail) = Suc (length body)"
proof (induction body arbitrary: n)
  case Nil
  then show ?case by (simp add: paren_depth_simps bracket_len_zero)
next
  case (Cons c cs)
  have pre: "- int n < paren_depth (c # take k cs)" if "k \<le> length cs" for k
    using Cons.prems(2)[rule_format, of "Suc k"] that by simp
  show ?case
  proof (cases "c = CHR ''(''")
    case True
    have "\<forall>k \<le> length cs. - int (n + 1) < paren_depth (take k cs)"
    proof (intro allI impI)
      fix k assume "k \<le> length cs"
      from pre[OF this] show "- int (n + 1) < paren_depth (take k cs)"
        using True by (simp add: paren_depth_simps)
    qed
    moreover have "paren_depth cs = 1 - int (n + 1)"
      using Cons.prems(3) True by (simp add: paren_depth_simps)
    ultimately have "bracket_len (n + 1) (cs @ CHR '')'' # tail) = Suc (length cs)"
      by (intro Cons.IH) simp_all
    then show ?thesis using True Cons.prems(1) by simp
  next
    case False
    show ?thesis
    proof (cases "c = CHR '')''")
      case c: True
      have "- int n < paren_depth [c]" using pre[of 0] by simp
      then have n1: "1 < n" using c by (simp add: paren_depth_simps)
      have "\<forall>k \<le> length cs. - int (n - 1) < paren_depth (take k cs)"
      proof (intro allI impI)
        fix k assume "k \<le> length cs"
        from pre[OF this] show "- int (n - 1) < paren_depth (take k cs)"
          using c n1 by (simp add: paren_depth_simps)
      qed
      moreover have "paren_depth cs = 1 - int (n - 1)"
        using Cons.prems(3) c n1 by (simp add: paren_depth_simps)
      ultimately have "bracket_len (n - 1) (cs @ CHR '')'' # tail) = Suc (length cs)"
        using n1 by (intro Cons.IH) simp_all
      then show ?thesis using c Cons.prems(1) by simp
    next
      case nc: False
      have "\<forall>k \<le> length cs. - int n < paren_depth (take k cs)"
      proof (intro allI impI)
        fix k assume "k \<le> length cs"
        from pre[OF this] show "- int n < paren_depth (take k cs)"
          using False nc by (simp add: paren_depth_simps)
      qed
      moreover have "paren_depth cs = 1 - int n"
        using Cons.prems(3) False nc by (simp add: paren_depth_simps)
      ultimately have "bracket_len n (cs @ CHR '')'' # tail) = Suc (length cs)"
        using Cons.prems(1) by (intro Cons.IH) simp_all
      then show ?thesis using False nc Cons.prems(1) by simp
    qed
  qed
qed

lemma bracket_len_balanced_body:
  assumes "balanced body"
  shows "bracket_len 1 (body @ CHR '')'' # tail) = Suc (length body)"
proof (rule bracket_len_body)
  show "\<forall>k \<le> length body. - int 1 < paren_depth (take k body)"
  proof (intro allI impI)
    fix k assume "k \<le> length body"
    from balanced_prefix[OF assms this] show "- int 1 < paren_depth (take k body)"
      by (simp add: paren_depth_def)
  qed
  show "paren_depth body = 1 - int 1"
    using assms by (simp add: balanced_def paren_depth_def)
qed simp


lemma loop_step_decl:
  assumes ok: "decl_ok d"
    and dr: "drop pos sql = decl_text d @ tail"
    and tl: "tail = [] \<or> \<not> py_isspace (hd tail)"
  shows "loop_step sql pos =
           (if tail \<noteq> [] \<and> hd tail = CHR '',''
            then More (decl_entry d) (pos + length (decl_text d))
            else Last (decl_entry d))"
proof -
  obtain a s where as: "d_as d = [a, s]" "ci_match CHR ''a'' a" "ci_match CHR ''s'' s"
  proof -
    from ok have l: "length (d_as d) = 2" by (simp add: decl_ok_def)
    then obtain a s where "d_as d = [a, s]"
      by (cases "d_as d"; cases "tl (d_as d)") auto
    moreover from ok have "ci_match CHR ''a'' (d_as d ! 0)" "ci_match CHR ''s'' (d_as d ! 1)"
      by (simp_all add: decl_ok_def)
    ultimately show ?thesis using that by simp
  qed
  from ok have seps: "list_all sep_char (d_seps d)"
    and name: "match_name (d_name d) = Some (d_name d)"
    and ws1: "d_ws1 d \<noteq> []" "list_all py_isspace (d_ws1 d)"
    and ws2: "list_all py_isspace (d_ws2 d)"
    and body: "balanced (d_body d)"
    and ws3: "list_all py_isspace (d_ws3 d)"
    by (simp_all add: decl_ok_def)
  define r5 where "r5 = d_ws3 d @ tail"
  define r4 where "r4 = d_body d @ CHR '')'' # r5"
  define r3 where "r3 = d_ws2 d @ CHR ''('' # r4"
  define r2 where "r2 = a # s # r3"
  define r1 where "r1 = d_ws1 d @ r2"
  define r0 where "r0 = d_name d @ r1"
  have d0: "drop pos sql = d_seps d @ r0"
    using dr by (simp add: decl_text_def as r0_def r1_def r2_def r3_def r4_def r5_def)
  have nm: "d_name d \<noteq> []" using name by (cases "d_name d") auto
  have "ident_start (hd (d_name d))" using name by (cases "d_name d") (auto split: if_splits)
  then have "\<not> sep_char (hd r0)" using nm by (simp add: r0_def ident_start_not_sep)
  then have t0: "takeWhile sep_char (drop pos sql) = d_seps d"
    unfolding d0 using seps by (intro takeWhile_all) simp_all
  define pos1 where "pos1 = pos + length (takeWhile sep_char (drop pos sql))"
  have p1: "pos1 = pos + length (d_seps d)" unfolding pos1_def t0 by simp
  have d1: "drop pos1 sql = r0" unfolding p1 using d0 by (rule drop_at)
  have "\<not> ident_char (hd r1)"
    using ws1 by (cases "d_ws1 d") (simp_all add: r1_def isspace_not_ident)
  then have n1: "match_name (drop pos1 sql) = Some (d_name d)"
    unfolding d1 r0_def using name by (intro match_name_append) simp_all
  have dp: "drop (pos1 + length (d_name d)) sql = r1"
    using d1 unfolding r0_def by (rule drop_at)
  have "\<not> py_isspace (hd r2)" using as(2) by (simp add: r2_def ci_match_not_space)
  then have t1: "takeWhile py_isspace (drop (pos1 + length (d_name d)) sql) = d_ws1 d"
    unfolding dp r1_def using ws1(2) by (intro takeWhile_all) simp_all
  define pos2 where "pos2 = pos1 + length (d_name d) +
       length (takeWhile py_isspace (drop (pos1 + length (d_name d)) sql))"
  have p2: "pos2 = pos1 + length (d_name d) + length (d_ws1 d)" unfolding pos2_def t1 by simp
  have d2: "drop pos2 sql = r2" unfolding p2 using dp[unfolded r1_def] by (rule drop_at)
  have "dropWhile py_isspace r3 = CHR ''('' # r4"
    unfolding r3_def using ws2 by (intro dropWhile_all) (simp_all add: paren_not_space)
  then have m: "match_as_paren (drop pos2 sql)"
    unfolding d2 r2_def using as(2,3) by simp
  have d22: "drop (pos2 + 2) sql = r3"
    using drop_at[of pos2 sql "[a, s]" r3] d2 by (simp add: r2_def)
  have t2: "takeWhile py_isspace (drop (pos2 + 2) sql) = d_ws2 d"
    unfolding d22 r3_def using ws2 by (intro takeWhile_all) (simp_all add: paren_not_space)
  define start where "start = pos2 + 3 + length (takeWhile py_isspace (drop (pos2 + 2) sql))"
  have st: "start = pos2 + 2 + length (d_ws2 d @ [CHR ''(''])" unfolding start_def t2 by simp
  have "drop (pos2 + 2 + length (d_ws2 d @ [CHR ''(''])) sql = r4"
    using drop_at[of "pos2 + 2" sql "d_ws2 d @ [CHR ''('']" r4] d22 by (simp add: r3_def)
  then have d3: "drop start sql = r4" by (simp only: st)
  have bl: "bracket_len 1 (drop start sql) = Suc (length (d_body d))"
    unfolding d3 r4_def using body by (rule bracket_len_balanced_body)
  define pos3 where "pos3 = start + bracket_len 1 (drop start sql)"
  have p3: "pos3 = start + length (d_body d @ [CHR '')''])" unfolding pos3_def bl by simp
  have bd: "take (pos3 - 1 - start) (drop start sql) = d_body d"
    unfolding d3 r4_def by (simp add: p3)
  have "drop (start + length (d_body d @ [CHR '')''])) sql = r5"
    using drop_at[of start sql "d_body d @ [CHR '')'']" r5] d3 by (simp add: r4_def)
  then have d4: "drop pos3 sql = r5" by (simp only: p3)
  have t3: "takeWhile py_isspace (drop pos3 sql) = d_ws3 d"
    unfolding d4 r5_def using ws3 tl by (intro takeWhile_all) simp_all
  define c where "c = (d_name d, py_strip (take (pos3 - 1 - start) (drop start sql)))"
  have ce: "c = decl_entry d" unfolding c_def bd decl_entry_def by (rule refl)
  define pos4 where "pos4 = pos3 + length (takeWhile py_isspace (drop pos3 sql))"
  have p4: "pos4 = pos3 + length (d_ws3 d)" unfolding pos4_def t3 by simp
  have d5: "drop pos4 sql = tail" unfolding p4 using d4[unfolded r5_def] by (rule drop_at)
  have ls: "loop_step sql pos =
          (if pos4 < length sql \<and> sql ! pos4 = CHR '','' then More c pos4 else Last c)"
    by (simp only: loop_step_def Let_def pos1_def[symmetric] n1 option.case
          pos2_def[symmetric] m not_True_eq_False if_False start_def[symmetric]
          pos3_def[symmetric] pos4_def[symmetric] c_def[symmetric])
  have len: "pos4 = pos + length (decl_text d)"
    by (simp add: p4 p3 st p2 p1 decl_text_def as)
  have cond: "(pos4 < length sql \<and> sql ! pos4 = CHR '','') \<longleftrightarrow> (tail \<noteq> [] \<and> hd tail = CHR '','')"
  proof (cases "pos4 < length sql")
    case True
    then have "drop pos4 sql = sql ! pos4 # drop (Suc pos4) sql"
      by (simp add: Cons_nth_drop_Suc)
    then show ?thesis using True d5 by auto
  next
    case False
    then have "tail = []" using d5 by simp
    then show ?thesis using False by simp
  qed
  have "loop_step sql pos =
          (if tail \<noteq> [] \<and> hd tail = CHR '','' then More c pos4 else Last c)"
    by (simp only: ls cond)
  then show ?thesis by (simp only: ce len)
qed



lemma parse_loop_decls:
  assumes "ds \<noteq> []" and "list_all decl_ok ds"
    and "list_all (\<lambda>d. d_seps d \<noteq> [] \<and> hd (d_seps d) = CHR '','') (tl ds)"
    and "drop pos sql = decls_text ds @ rest"
    and "rest = [] \<or> (\<not> py_isspace (hd rest) \<and> hd rest \<noteq> CHR '','')"
  shows "parse_loop sql pos ctes = Inr (ctes @ map decl_entry ds)"
  using assms
proof (induction ds arbitrary: pos ctes)
  case Nil
  then show ?case by simp
next
  case (Cons d ds)
  from Cons.prems(2) have ok: "decl_ok d" and oks: "list_all decl_ok ds" by simp_all
  define tail where "tail = decls_text ds @ rest"
  have dr: "drop pos sql = decl_text d @ tail"
    using Cons.prems(4) by (simp add: decls_text_def tail_def)
  have nonempty: "decl_text d \<noteq> []"
    using ok by (auto simp: decl_text_def decl_ok_def)
  have pl: "pos < length sql"
  proof (rule ccontr)
    assume "\<not> pos < length sql"
    then have "drop pos sql = []" by simp
    with dr nonempty show False by simp
  qed
  show ?case
  proof (cases ds)
    case Nil
    then have t: "tail = rest" by (simp add: tail_def decls_text_def)
    have "tail = [] \<or> \<not> py_isspace (hd tail)" using Cons.prems(5) t by auto
    from loop_step_decl[OF ok dr this]
    have "loop_step sql pos = Last (decl_entry d)" using Cons.prems(5) t by auto
    then show ?thesis using pl Nil by (subst parse_loop_step) simp
  next
    case (Cons d' ds')
    from Cons.prems(3) Cons have c: "d_seps d' \<noteq> []" "hd (d_seps d') = CHR '',''" by simp_all
    have hd: "tail \<noteq> []" "hd tail = CHR '',''"
      using c by (simp_all add: tail_def decls_text_def Cons decl_text_def)
    have "\<not> py_isspace CHR '',''" by (simp add: py_isspace_def)
    then have "tail = [] \<or> \<not> py_isspace (hd tail)" using hd by simp
    from loop_step_decl[OF ok dr this]
    have ls: "loop_step sql pos = More (decl_entry d) (pos + length (decl_text d))"
      using hd by simp
    have dr': "drop (pos + length (decl_text d)) sql = decls_text ds @ rest"
      using drop_at[OF dr] by (simp add: tail_def)
    have "list_all (\<lambda>d. d_seps d \<noteq> [] \<and> hd (d_seps d) = CHR '','') (tl ds)"
      using Cons.prems(3) Cons by simp
    from Cons.IH[OF _ oks this dr' Cons.prems(5), of "ctes @ [decl_entry d]"]
    have "parse_loop sql (pos + length (decl_text d)) (ctes @ [decl_entry d]) =
            Inr (ctes @ decl_entry d # map decl_entry ds)"
      using Cons by simp
    then show ?thesis using pl ls by (subst parse_loop_step) simp
  qed
qed


text \<open>
  A statement whose text behind the keyword is a well-formed list of declarations,
  followed by nothing or by a final query, is segmented into the entries of its
  declarations, one for each and in their order. The separators before a name are
  those the loop skips: space, newline, tab and comma.
\<close>

theorem well_formed_statement_segmented:
  assumes "search_with (py_strip sql) = Some e"
    and "drop e (py_strip sql) = decls_text ds @ rest"
    and "decls_ok ds"
    and "rest = [] \<or> (\<not> py_isspace (hd rest) \<and> hd rest \<noteq> CHR '','')"
  shows "parse_cte_sql sql = Inr (map decl_entry ds)"
proof -
  from assms(3) have "ds \<noteq> []" "list_all decl_ok ds"
    "list_all (\<lambda>d. d_seps d \<noteq> [] \<and> hd (d_seps d) = CHR '','') (tl ds)"
    by (simp_all add: decls_ok_def)
  from parse_loop_decls[OF this assms(2,4), of "[]"]
  show ?thesis using assms(1) by (simp add: parse_cte_sql_def)
qed


lemma well_formed_statement_segmented_example:
  "decls_ok
     [\<lparr>d_seps = '' '', d_name = ''a'', d_ws1 = '' '', d_as = ''as'', d_ws2 = '' '',
       d_body = ''select 1'', d_ws3 = ''''\<rparr>,
      \<lparr>d_seps = '', '', d_name = ''b'', d_ws1 = '' '', d_as = ''as'', d_ws2 = '' '',
       d_body = ''select * from a'', d_ws3 = '' ''\<rparr>] \<and>
   parse_cte_sql ''with a as (select 1), b as (select * from a) select * from b'' =
     Inr [(''a'', ''select 1''), (''b'', ''select * from a'')]"
proof -
  let ?s = "''with a as (select 1), b as (select * from a) select * from b''"
  let ?ds = "[\<lparr>d_seps = '' '', d_name = ''a'', d_ws1 = '' '', d_as = ''as'', d_ws2 = '' '',
       d_body = ''select 1'', d_ws3 = ''''\<rparr>,
      \<lparr>d_seps = '', '', d_name = ''b'', d_ws1 = '' '', d_as = ''as'', d_ws2 = '' '',
       d_body = ''select * from a'', d_ws3 = '' ''\<rparr>]"
  have w: "search_with (py_strip ?s) = Some 4" by code_simp
  have d: "drop 4 (py_strip ?s) = decls_text ?ds @ ''select * from b''" by code_simp
  have ok: "decls_ok ?ds" by code_simp
  have r: "''select * from b'' = [] \<or>
      (\<not> py_isspace (hd ''select * from b'') \<and> hd ''select * from b'' \<noteq> CHR '','')"
    by code_simp
  show ?thesis using ok well_formed_statement_segmented[OF w d ok r] by (simp add: decl_entry_def py_strip_def py_isspace_def)
qed



section \<open>The scenarios of the specification\<close>

text \<open>
  C2: on \<open>with a as (select 1), b as (select * from a) select * from b\<close> the segmenter
  returns the two entries \<open>a\<close> and \<open>b\<close> in that order, and the reconstructor maps \<open>a\<close> and
  \<open>b\<close> to the two statements of the scenario, and nothing else.
\<close>

theorem scenario_two_ctes:
  "parse_cte_sql ''with a as (select 1), b as (select * from a) select * from b'' =
     Inr [(''a'', ''select 1''), (''b'', ''select * from a'')] \<and>
   build_executable_cte_sql [(''a'', ''select 1''), (''b'', ''select * from a'')] ''a'' =
     Some ''WITH\<newline>a AS (\<newline>select 1\<newline>)\<newline>SELECT * FROM a'' \<and>
   build_executable_cte_sql [(''a'', ''select 1''), (''b'', ''select * from a'')] ''b'' =
     Some ''WITH\<newline>a AS (\<newline>select 1\<newline>),\<newline>b AS (\<newline>select * from a\<newline>)\<newline>SELECT * FROM b'' \<and>
   dom (build_executable_cte_sql [(''a'', ''select 1''), (''b'', ''select * from a'')]) =
     {''a'', ''b''}"
proof (intro conjI)
  show "parse_cte_sql ''with a as (select 1), b as (select * from a) select * from b'' =
     Inr [(''a'', ''select 1''), (''b'', ''select * from a'')]"
    by code_simp
  show "build_executable_cte_sql [(''a'', ''select 1''), (''b'', ''select * from a'')] ''a'' =
     Some ''WITH\<newline>a AS (\<newline>select 1\<newline>)\<newline>SELECT * FROM a''"
    by code_simp
  show "build_executable_cte_sql [(''a'', ''select 1''), (''b'', ''select * from a'')] ''b'' =
     Some ''WITH\<newline>a AS (\<newline>select 1\<newline>),\<newline>b AS (\<newline>select * from a\<newline>)\<newline>SELECT * FROM b''"
    by code_simp
  show "dom (build_executable_cte_sql [(''a'', ''select 1''), (''b'', ''select * from a'')]) =
     {''a'', ''b''}"
    by (auto simp: build_executable_cte_sql_def Let_def)
qed

text \<open>
  C3: on the unbalanced \<open>with a as (select 1\<close> the bracket loop runs to the end of the
  input, and \<open>end = pos - 1\<close> then cuts the last character off: the one entry returned
  has the body \<open>select\<close>, not \<open>select 1\<close>. No exception is raised.
\<close>

theorem scenario_unbalanced_drops_last_char:
  "parse_cte_sql ''with a as (select 1'' = Inr [(''a'', ''select'')]"
  by code_simp

text \<open>
  C4: a carriage return after the comma is not in \<open>" \n\t,"\<close>, so the name of the second
  declaration is not matched and the scan stops with the first entry alone.
\<close>

theorem scenario_carriage_return_stops_scan:
  "parse_cte_sql (''with a as (select 1),'' @ [CHR 0x0D, CHR 0x0A] @
       ''b as (select 2) select * from b'') = Inr [(''a'', ''select 1'')]"
  by code_simp

text \<open>
  C5: on \<open>with a as (select * from (select 1) x) select * from a\<close> the inner parentheses
  do not end the body: the one entry is \<open>a\<close> with the body \<open>select * from (select 1) x\<close>.
\<close>

theorem scenario_nested_parentheses:
  "parse_cte_sql ''with a as (select * from (select 1) x) select * from a'' =
     Inr [(''a'', ''select * from (select 1) x'')]"
  by code_simp



section \<open>The reconstructor\<close>

text \<open>
  C1: as the program has it, for every sequence of pairs and every position \<open>K\<close> from 1
  to its length, the statement stored for the \<open>K\<close>-th pair (the entry under its name
  once the loop has run \<open>K\<close> times) is the prefix \<open>WITH\<close> and a newline, the renderings
  \<open>name AS (\n body \n)\<close> of the pairs 1 to \<open>K\<close> in their order, with a comma and a
  newline between them, then a newline and \<open>SELECT * FROM\<close> with the \<open>K\<close>-th name. The
  rest of the loop starts from the state reached after \<open>K\<close> iterations, and whatever
  pairs follow the first \<open>K\<close>, the mapping returned has this statement under the
  \<open>K\<close>-th name unless one of them has that name: a pair beyond \<open>K\<close> adds nothing to it.
\<close>

theorem reconstruct_statement_of_position:
  assumes "0 < K" and "K \<le> length ctes"
  shows "fst (build_loop (take K ctes) (Map.empty, [])) (fst (ctes ! (K - 1))) =
           Some (spec_statement (take K ctes)) \<and>
         build_loop ctes (Map.empty, []) =
           build_loop (drop K ctes) (build_loop (take K ctes) (Map.empty, [])) \<and>
         (\<forall>rest. fst (ctes ! (K - 1)) \<notin> fst ` set rest \<longrightarrow>
            build_executable_cte_sql (take K ctes @ rest) (fst (ctes ! (K - 1))) =
              Some (spec_statement (take K ctes)))"
proof (intro conjI allI impI)
  obtain n b where nb: "ctes ! (K - 1) = (n, b)" by (cases "ctes ! (K - 1)")
  have tk: "take K ctes = take (K - 1) ctes @ [(n, b)]"
    using take_Suc_conv_app_nth[of "K - 1" ctes] assms nb by simp
  have sp: "full_sql (take K ctes) n = spec_statement (take K ctes)"
    unfolding tk using full_sql_spec[of "take (K - 1) ctes" "(n, b)"] by simp
  have "fst (build_loop (take (K - 1) ctes @ (n, b) # []) (Map.empty, [])) n =
          Some (full_sql ([] @ take (K - 1) ctes @ [(n, b)]) n)"
    by (rule build_loop_last) simp
  then show "fst (build_loop (take K ctes) (Map.empty, [])) (fst (ctes ! (K - 1))) =
           Some (spec_statement (take K ctes))"
    using tk nb sp by simp
  show "build_loop ctes (Map.empty, []) =
           build_loop (drop K ctes) (build_loop (take K ctes) (Map.empty, []))"
    using build_loop_append[of "take K ctes" "drop K ctes" "(Map.empty, [])"] by simp
  fix rest :: "cte list"
  assume a: "fst (ctes ! (K - 1)) \<notin> fst ` set rest"
  then have "n \<notin> fst ` set rest" using nb by simp
  from build_loop_last[OF this, of "take (K - 1) ctes" b Map.empty "[]"]
  have "fst (build_loop (take K ctes @ rest) (Map.empty, [])) n = Some (full_sql (take K ctes) n)"
    using tk by simp
  then show "build_executable_cte_sql (take K ctes @ rest) (fst (ctes ! (K - 1))) =
              Some (spec_statement (take K ctes))"
    using nb sp by (simp add: build_executable_cte_sql_def)
qed

theorem reconstruct_statement_of_position_witness:
  "0 < (2::nat) \<and>
   2 \<le> length [(''a'', ''select 1''), (''b'', ''select * from a''), (''c'', ''select 2'')] \<and>
   fst (build_loop (take 2 [(''a'', ''select 1''), (''b'', ''select * from a''), (''c'', ''select 2'')])
          (Map.empty, [])) ''b'' =
     Some ''WITH\<newline>a AS (\<newline>select 1\<newline>),\<newline>b AS (\<newline>select * from a\<newline>)\<newline>SELECT * FROM b'' \<and>
   ''b'' \<notin> fst ` set [(''c'', ''select 2'')] \<and>
   build_executable_cte_sql [(''a'', ''select 1''), (''b'', ''select * from a''), (''c'', ''select 2'')] ''b'' =
     Some ''WITH\<newline>a AS (\<newline>select 1\<newline>),\<newline>b AS (\<newline>select * from a\<newline>)\<newline>SELECT * FROM b''"
  using reconstruct_statement_of_position
          [of 2 "[(''a'', ''select 1''), (''b'', ''select * from a''), (''c'', ''select 2'')]"]
  by (simp add: spec_statement_def spec_rendering_def)

text \<open>
  The text of a later pair's rendering can still occur in the statement: with the pairs
  \<open>(ab, select 1)\<close> and \<open>(b, select 1)\<close> the statement stored for the first contains
  \<open>b AS (\n select 1 \n)\<close>, the rendering of the second, inside the rendering of the
  first.
\<close>

theorem later_declaration_text_occurs:
  "fst (build_loop (take 1 [(''ab'', ''select 1''), (''b'', ''select 1'')]) (Map.empty, [])) ''ab'' =
     Some ''WITH\<newline>ab AS (\<newline>select 1\<newline>)\<newline>SELECT * FROM ab'' \<and>
   spec_rendering ([(''ab'', ''select 1''), (''b'', ''select 1'')] ! 1) = ''b AS (\<newline>select 1\<newline>)'' \<and>
   contains_text ''WITH\<newline>ab AS (\<newline>select 1\<newline>)\<newline>SELECT * FROM ab''
     (spec_rendering ([(''ab'', ''select 1''), (''b'', ''select 1'')] ! 1))"
  by code_simp

text \<open>
  C7: when two entries of the sequence have the same name, the one at \<open>i\<close> before the
  one at \<open>j\<close>, and no entry after \<open>j\<close> has that name, the mapping has under the name the
  statement built for the entry at \<open>j\<close>, and the statement built for the entry at \<open>i\<close> is
  not a value of the mapping under any name. The segmenter does return such sequences,
  as the instance below shows.
\<close>

theorem duplicate_name_keeps_last:
  assumes "i < j" and "j < length ctes" and "fst (ctes ! i) = fst (ctes ! j)"
    and "\<forall>k. j < k \<and> k < length ctes \<longrightarrow> fst (ctes ! k) \<noteq> fst (ctes ! j)"
  shows "build_executable_cte_sql ctes (fst (ctes ! j)) =
           Some (full_sql (take (Suc j) ctes) (fst (ctes ! j))) \<and>
         full_sql (take (Suc i) ctes) (fst (ctes ! i)) \<notin> ran (build_executable_cte_sql ctes)"
proof
  let ?n = "fst (ctes ! j)"
  have "?n \<in> dom (build_executable_cte_sql ctes)"
    using assms(2) by (auto simp: build_executable_cte_sql_def build_loop_dom)
  then obtain v where v: "fst (build_loop ctes (Map.empty, [])) ?n = Some v"
    by (auto simp: build_executable_cte_sql_def)
  from build_loop_Some[OF v] obtain k where k: "k < length ctes" "fst (ctes ! k) = ?n"
     "v = full_sql (take (Suc k) ctes) ?n"
     "\<forall>k'. k < k' \<and> k' < length ctes \<longrightarrow> fst (ctes ! k') \<noteq> ?n" by blast
  have "k = j"
    using k(1,2,4) assms(2,4) by (metis linorder_neqE_nat)
  then show "build_executable_cte_sql ctes ?n = Some (full_sql (take (Suc j) ctes) ?n)"
    using v k(3) by (simp add: build_executable_cte_sql_def)
  show "full_sql (take (Suc i) ctes) (fst (ctes ! i)) \<notin> ran (build_executable_cte_sql ctes)"
  proof
    assume "full_sql (take (Suc i) ctes) (fst (ctes ! i)) \<in> ran (build_executable_cte_sql ctes)"
    then obtain m where m: "fst (build_loop ctes (Map.empty, [])) m = Some (full_sql (take (Suc i) ctes) (fst (ctes ! i)))"
      by (auto simp: ran_def build_executable_cte_sql_def)
    from build_loop_Some[OF m] obtain k where k: "k < length ctes" "fst (ctes ! k) = m"
      "full_sql (take (Suc i) ctes) (fst (ctes ! i)) = full_sql (take (Suc k) ctes) m"
      "\<forall>k'. k < k' \<and> k' < length ctes \<longrightarrow> fst (ctes ! k') \<noteq> m" by blast
    have "Suc i = Suc k"
      using full_sql_take_inj[OF _ _ _ _ k(3)] k(1) assms(1,2) by simp
    then have "i = k" by simp
    then have "fst (ctes ! j) \<noteq> m" and "fst (ctes ! i) = m"
      using k(2,4) assms(1,2) by auto
    then show False using assms(3) by simp
  qed
qed


theorem duplicate_name_keeps_last_witness:
  "parse_cte_sql ''with a as (select 1), a as (select 2) select * from a'' =
     Inr [(''a'', ''select 1''), (''a'', ''select 2'')] \<and>
   build_executable_cte_sql [(''a'', ''select 1''), (''a'', ''select 2'')] ''a'' =
     Some ''WITH\<newline>a AS (\<newline>select 1\<newline>),\<newline>a AS (\<newline>select 2\<newline>)\<newline>SELECT * FROM a'' \<and>
   ''WITH\<newline>a AS (\<newline>select 1\<newline>)\<newline>SELECT * FROM a'' \<notin>
     ran (build_executable_cte_sql [(''a'', ''select 1''), (''a'', ''select 2'')])"
proof -
  have "parse_cte_sql ''with a as (select 1), a as (select 2) select * from a'' =
     Inr [(''a'', ''select 1''), (''a'', ''select 2'')]"
    by code_simp
  then show ?thesis
    using duplicate_name_keeps_last[of 0 1 "[(''a'', ''select 1''), (''a'', ''select 2'')]"]
    by (simp add: full_sql_def)
qed


section \<open>The segmenter\<close>

text \<open>
  Statements without the keyword. On the strings of the model a statement with no
  whole-word occurrence of \<open>with\<close>, in either ASCII case of its letters, is segmented
  into the empty sequence, without an error, and the reconstructor maps the empty
  sequence to the empty mapping. Beyond U+00FF the pattern of the program matches more
  than the letters of \<open>with\<close>: under \<open>re.IGNORECASE\<close> the letter \<open>i\<close> also matches
  U+0130 and U+0131, which no case mapping of strings turns into \<open>i\<close>.
\<close>

theorem no_with_gives_empty:
  assumes "\<not> has_whole_word_with sql"
  shows "parse_cte_sql sql = Inr [] \<and> build_executable_cte_sql [] = Map.empty"
  using search_with_None[OF assms] by (simp add: parse_cte_sql_def build_executable_cte_sql_def)

theorem no_with_gives_empty_witness:
  "\<not> has_whole_word_with ''select * from t'' \<and> parse_cte_sql ''select * from t'' = Inr [] \<and>
     build_executable_cte_sql [] = Map.empty"
proof -
  have h: "\<not> has_whole_word_with ''select * from t''" by code_simp
  show ?thesis using h no_with_gives_empty[OF h] by simp
qed

text \<open>
  C10: on every statement the segmenter returns a sequence, never an error, and the
  sequence has at most as many entries as the statement has characters; on every
  sequence the reconstructor returns a mapping, whose keys are the names of the
  sequence. Both functions are total: every loop of the segmenter moves its position
  forward, and the reconstructor runs once through its input.
\<close>

theorem segment_and_reconstruct_total:
  "(\<exists>r. parse_cte_sql sql = Inr r \<and> length r \<le> length sql) \<and>
   dom (build_executable_cte_sql ctes) = fst ` set ctes"
proof
  show "\<exists>r. parse_cte_sql sql = Inr r \<and> length r \<le> length sql"
  proof (cases "search_with (py_strip sql)")
    case None
    then show ?thesis by (simp add: parse_cte_sql_def)
  next
    case (Some pos)
    obtain r where r: "parse_loop (py_strip sql) pos [] = Inr r"
      using parse_loop_Inr by blast
    have "length r \<le> length (py_strip sql)"
      using parse_loop_length[OF r] by simp
    then have "length r \<le> length sql" using py_strip_length[of sql] by simp
    then show ?thesis using Some r by (simp add: parse_cte_sql_def)
  qed
  show "dom (build_executable_cte_sql ctes) = fst ` set ctes"
    by (simp add: build_executable_cte_sql_def build_loop_dom)
qed


text \<open>
  Bodies of balanced statements. On the strings of the model, where \<open>sql.lower()\<close> has
  the length of \<open>sql\<close>, every body of the sequence that the segmenter returns for a
  statement with balanced parentheses has as many \<open>(\<close> as \<open>)\<close>: the bracket loop always
  stops on the parenthesis that closes the body. With U+0130 before the parenthesis
  the position found in \<open>sql.lower()\<close> is one too far in \<open>sql\<close>, and the bracket loop can
  run to the end of the statement, where \<open>end = pos - 1\<close> cuts the last character off.
\<close>

theorem bodies_of_balanced_statement:
  assumes "balanced sql"
  shows "\<exists>r. parse_cte_sql sql = Inr r \<and>
          (\<forall>c \<in> set r. count_list (snd c) CHR ''('' = count_list (snd c) CHR '')'')"
proof (cases "search_with (py_strip sql)")
  case None
  then show ?thesis by (simp add: parse_cte_sql_def)
next
  case (Some pos)
  obtain r where r: "parse_loop (py_strip sql) pos [] = Inr r"
    using parse_loop_Inr by blast
  have "\<forall>c \<in> set r. count_list (snd c) CHR ''('' = count_list (snd c) CHR '')''"
    using parse_loop_balanced[OF balanced_strip[OF assms] _ r] by simp
  then show ?thesis using Some r by (simp add: parse_cte_sql_def)
qed


theorem bodies_of_balanced_statement_witness:
  "balanced ''with a as (select * from (select 1) x) select * from a'' \<and>
   (\<exists>r. parse_cte_sql ''with a as (select * from (select 1) x) select * from a'' = Inr r \<and>
        (\<forall>c \<in> set r. count_list (snd c) CHR ''('' = count_list (snd c) CHR '')''))"
proof -
  have h: "balanced ''with a as (select * from (select 1) x) select * from a''"
    by code_simp
  show ?thesis using h bodies_of_balanced_statement[OF h] by simp
qed

text \<open>
  C8: when the main loop, after any number of captured entries, is at a position where
  (behind the separators) an identifier is matched, and what follows the identifier and
  the whitespace behind it does not match \<open>as\<close>, optional whitespace and an opening
  parenthesis in any case of the letters, then the segmenter returns exactly the entries
  captured so far, and no error.
\<close>

theorem malformed_declaration_stops:
  assumes "reaches (py_strip sql) pos ctes"
    and "match_name (dropWhile sep_char (drop pos (py_strip sql))) = Some name"
    and "\<not> match_as_paren
           (dropWhile py_isspace
              (drop (length name) (dropWhile sep_char (drop pos (py_strip sql)))))"
  shows "parse_cte_sql sql = Inr ctes"
proof -
  obtain e where e: "search_with (py_strip sql) = Some e"
    using reaches_search[OF assms(1)] by blast
  have "parse_loop (py_strip sql) e [] = parse_loop (py_strip sql) pos ctes"
    using reaches_parse_loop[OF assms(1) e] .
  also have "\<dots> = Inr ctes"
    using loop_step_malformed[OF assms(2,3)] by (subst parse_loop_step) simp
  finally show ?thesis using e by (simp add: parse_cte_sql_def)
qed

theorem malformed_declaration_stops_witness:
  "reaches (py_strip ''with a as (select 1), b select 2'') 20 [(''a'', ''select 1'')] \<and>
   match_name (dropWhile sep_char (drop 20 (py_strip ''with a as (select 1), b select 2''))) = Some ''b'' \<and>
   \<not> match_as_paren (dropWhile py_isspace (drop (length ''b'')
        (dropWhile sep_char (drop 20 (py_strip ''with a as (select 1), b select 2''))))) \<and>
   parse_cte_sql ''with a as (select 1), b select 2'' = Inr [(''a'', ''select 1'')]"
proof -
  let ?s = "''with a as (select 1), b select 2''"
  have st: "py_strip ?s = ?s" by code_simp
  have w: "search_with ?s = Some 4" by code_simp
  have ls: "loop_step ?s 4 = More (''a'', ''select 1'') 20" by code_simp
  have "reaches ?s 20 ([] @ [(''a'', ''select 1'')])"
    by (rule reaches.capture[OF reaches.after_with[OF w] _ ls]) simp
  then have r: "reaches (py_strip ?s) 20 [(''a'', ''select 1'')]" by (simp only: st append_Nil)
  have n: "match_name (dropWhile sep_char (drop 20 (py_strip ?s))) = Some ''b''" by code_simp
  have m: "\<not> match_as_paren (dropWhile py_isspace (drop (length ''b'')
        (dropWhile sep_char (drop 20 (py_strip ?s)))))" by code_simp
  show ?thesis using r n m malformed_declaration_stops[OF r n m] by simp
qed


end
